theory Spec2Isabelle
  imports Main "HOL-Library.Sublist"
begin

section \<open>Python strings\<close>

text \<open>
  The patch engine of \<^verbatim>\<open>output_format.py\<close> works on Python \<^verbatim>\<open>str\<close> values. A string is
  modelled as a \<^typ>\<open>string\<close>, one \<^typ>\<open>char\<close> per code point; the code points covered are
  0..255, and the character tables below are Python's tables restricted to that range.
\<close>

definition is_space :: "char \<Rightarrow> bool" where
  \<comment> \<open>\<^verbatim>\<open>str.isspace\<close> on one character, which is also what \<^verbatim>\<open>\s\<close> of \<^verbatim>\<open>re\<close> and
      \<^verbatim>\<open>str.strip()\<close> use: TAB, LF, VT, FF, CR, FS, GS, RS, US, SPACE, NEL, NBSP.\<close>
  "is_space c = (c \<in> set [CHR 0x09, CHR 0x0A, CHR 0x0B, CHR 0x0C, CHR 0x0D, CHR 0x1C,
                            CHR 0x1D, CHR 0x1E, CHR 0x1F, CHR 0x20, CHR 0x85, CHR 0xA0])"

definition is_linebreak :: "char \<Rightarrow> bool" where
  \<comment> \<open>the line boundaries of \<^verbatim>\<open>str.splitlines\<close>: LF, VT, FF, CR, FS, GS, RS, NEL
      (CR LF together is one boundary, see \<open>splitlines_acc\<close>).\<close>
  "is_linebreak c = (c \<in> set [CHR 0x0A, CHR 0x0B, CHR 0x0C, CHR 0x0D, CHR 0x1C,
                                CHR 0x1D, CHR 0x1E, CHR 0x85])"

definition lstrip :: "string \<Rightarrow> string" where
  "lstrip s = dropWhile is_space s"

definition rstrip :: "string \<Rightarrow> string" where
  "rstrip s = rev (dropWhile is_space (rev s))"

definition strip :: "string \<Rightarrow> string" where
  "strip s = rstrip (lstrip s)"

fun splitlines_acc :: "string \<Rightarrow> string \<Rightarrow> string list" where
  "splitlines_acc cur [] = (if cur = [] then [] else [cur])"
| "splitlines_acc cur [c] =
     (if is_linebreak c then [cur] else [cur @ [c]])"
| "splitlines_acc cur (c # d # cs) =
     (if c = CHR 0x0D \<and> d = CHR 0x0A then cur # splitlines_acc [] cs
      else if is_linebreak c then cur # splitlines_acc [] (d # cs)
      else splitlines_acc (cur @ [c]) (d # cs))"

definition splitlines :: "string \<Rightarrow> string list" where
  \<comment> \<open>\<^verbatim>\<open>s.splitlines()\<close>: the lines without their terminators; no empty last line after a
      final terminator.\<close>
  "splitlines s = splitlines_acc [] s"

fun join_lines :: "string list \<Rightarrow> string" where
  \<comment> \<open>\<^verbatim>\<open>'\n'.join(lines)\<close>\<close>
  "join_lines [] = []"
| "join_lines [l] = l"
| "join_lines (l # m # ls) = l @ CHR 0x0A # join_lines (m # ls)"

fun str_find :: "string \<Rightarrow> string \<Rightarrow> nat option" where
  \<comment> \<open>\<^verbatim>\<open>s.find(sub)\<close>: the lowest offset at which \<open>sub\<close> occurs, \<open>None\<close> for -1.\<close>
  "str_find sub [] = (if sub = [] then Some 0 else None)"
| "str_find sub (c # cs) =
     (if prefix sub (c # cs) then Some 0 else map_option Suc (str_find sub cs))"

definition str_find_from :: "string \<Rightarrow> string \<Rightarrow> nat \<Rightarrow> nat option" where
  \<comment> \<open>\<^verbatim>\<open>s.find(sub, start)\<close> for \<open>start \<ge> 0\<close>: -1 when \<open>start\<close> is beyond the end.\<close>
  "str_find_from s sub start =
     (if length s < start then None
      else map_option (\<lambda>p. start + p) (str_find sub (drop start s)))"

definition str_contains :: "string \<Rightarrow> string \<Rightarrow> bool" where
  \<comment> \<open>\<^verbatim>\<open>sub in s\<close>\<close>
  "str_contains sub s = (str_find sub s \<noteq> None)"

definition str_replace_first :: "string \<Rightarrow> string \<Rightarrow> string \<Rightarrow> string" where
  \<comment> \<open>\<^verbatim>\<open>s.replace(old, new, 1)\<close>\<close>
  "str_replace_first s old new =
     (case str_find old s of
        None \<Rightarrow> s
      | Some p \<Rightarrow> take p s @ new @ drop (p + length old) s)"

fun str_nat :: "nat \<Rightarrow> string" where
  \<comment> \<open>\<^verbatim>\<open>str(n)\<close> of a non-negative integer\<close>
  "str_nat n =
     (if n < 10 then [''0123456789'' ! n]
      else str_nat (n div 10) @ [''0123456789'' ! (n mod 10)])"

section \<open>Regular expressions\<close>

text \<open>
  The three patterns of the module are built from literals, \<^verbatim>\<open>\s\<close>, \<^verbatim>\<open>.\<close> (always under
  DOTALL), concatenation, alternation, the greedy \<^verbatim>\<open>?\<close>, the greedy \<^verbatim>\<open>*\<close> and the lazy
  \<^verbatim>\<open>*?\<close> on one character class, capture groups, and \<^verbatim>\<open>$\<close> under MULTILINE.
  \<open>rx_match\<close> is the backtracking matcher of \<^verbatim>\<open>re\<close> written with a continuation: it
  tries the alternatives in Python's priority order and returns the first success.
\<close>

datatype atom = Chr char | Space | Dot

datatype rx =
    Atom atom
  | Eps
  | Seq rx rx
  | Alt rx rx
  | Opt rx
  | Star atom
  | Lazy atom
  | Group rx
  | Eol

fun atom_ok :: "atom \<Rightarrow> char \<Rightarrow> bool" where
  "atom_ok (Chr a) c = (c = a)"
| "atom_ok Space c = is_space c"
| "atom_ok Dot c = True"

fun lit :: "string \<Rightarrow> rx" where
  "lit [] = Eps"
| "lit (c # cs) = Seq (Atom (Chr c)) (lit cs)"

fun rx_match ::
  "rx \<Rightarrow> (string list \<Rightarrow> string \<Rightarrow> 'r option) \<Rightarrow> string list \<Rightarrow> string \<Rightarrow> 'r option" where
  "rx_match (Atom a) k caps s =
     (case s of [] \<Rightarrow> None | c # cs \<Rightarrow> if atom_ok a c then k caps cs else None)"
| "rx_match Eps k caps s = k caps s"
| "rx_match (Seq r1 r2) k caps s = rx_match r1 (\<lambda>caps' s'. rx_match r2 k caps' s') caps s"
| "rx_match (Alt r1 r2) k caps s =
     (case rx_match r1 k caps s of Some x \<Rightarrow> Some x | None \<Rightarrow> rx_match r2 k caps s)"
| "rx_match (Opt r) k caps s =
     (case rx_match r k caps s of Some x \<Rightarrow> Some x | None \<Rightarrow> k caps s)"
| "rx_match (Star a) k caps s =
     (case s of
        [] \<Rightarrow> k caps []
      | c # cs \<Rightarrow>
          if atom_ok a c
          then (case rx_match (Star a) k caps cs of Some x \<Rightarrow> Some x | None \<Rightarrow> k caps s)
          else k caps s)"
| "rx_match (Lazy a) k caps s =
     (case k caps s of
        Some x \<Rightarrow> Some x
      | None \<Rightarrow>
          (case s of
             [] \<Rightarrow> None
           | c # cs \<Rightarrow> if atom_ok a c then rx_match (Lazy a) k caps cs else None))"
| "rx_match (Group r) k caps s =
     rx_match r (\<lambda>caps' s'. k (caps' @ [take (length s - length s') s]) s') caps s"
| "rx_match Eol k caps s = (if s = [] \<or> hd s = CHR 0x0A then k caps s else None)"

definition matched :: "string list \<Rightarrow> string \<Rightarrow> (string list \<times> string) option" where
  \<comment> \<open>the last continuation: the pattern is matched, with these captures and this rest\<close>
  "matched caps rest = Some (caps, rest)"

text \<open>
  \<^verbatim>\<open>re.finditer\<close> and \<^verbatim>\<open>re.sub\<close> scan from left to right for the next position where the
  pattern matches, and go on after the end of the match. Each pattern of the module starts
  with a literal, so a match is never empty; the branch for an empty match only keeps the
  recursion well-founded.
\<close>

function rx_finditer :: "rx \<Rightarrow> string \<Rightarrow> string list list" where
  "rx_finditer r s =
     (case rx_match r matched [] s of
        Some (caps, rest) \<Rightarrow>
          if length rest < length s then caps # rx_finditer r rest
          else (case s of [] \<Rightarrow> [caps] | c # cs \<Rightarrow> caps # rx_finditer r cs)
      | None \<Rightarrow> (case s of [] \<Rightarrow> [] | c # cs \<Rightarrow> rx_finditer r cs))"
  by pat_completeness auto
termination
  by (relation "measure (\<lambda>(r, s). length s)") auto

function rx_sub_empty :: "rx \<Rightarrow> string \<Rightarrow> string" where
  \<comment> \<open>\<^verbatim>\<open>re.sub(pattern, '', s)\<close>: every match is deleted\<close>
  "rx_sub_empty r s =
     (case rx_match r matched [] s of
        Some (caps, rest) \<Rightarrow>
          if length rest < length s then rx_sub_empty r rest
          else (case s of [] \<Rightarrow> [] | c # cs \<Rightarrow> c # rx_sub_empty r cs)
      | None \<Rightarrow> (case s of [] \<Rightarrow> [] | c # cs \<Rightarrow> c # rx_sub_empty r cs))"
  by pat_completeness auto
termination
  by (relation "measure (\<lambda>(r, s). length s)") auto

definition match_group :: "string list \<Rightarrow> nat \<Rightarrow> string" where
  \<comment> \<open>\<^verbatim>\<open>match.group(i)\<close>, for the group numbers 1, 2, ...; every group of the module's
      patterns takes part in every match.\<close>
  "match_group caps i = (if 0 < i \<and> i \<le> length caps then caps ! (i - 1) else [])"

definition rx_findall :: "rx \<Rightarrow> string \<Rightarrow> string list" where
  \<comment> \<open>\<^verbatim>\<open>re.findall\<close> for a pattern with one group: the list of that group's texts\<close>
  "rx_findall r s = map (\<lambda>caps. match_group caps 1) (rx_finditer r s)"

definition seqs :: "rx list \<Rightarrow> rx" where
  "seqs rs = foldr Seq rs Eps"

definition fence_rx :: rx where
  \<comment> \<open>\<^verbatim>\<open>r'```(?:rust|verus|python)?\s*\n?|```\s*$'\<close>, MULTILINE\<close>
  "fence_rx =
     Alt (seqs [lit ''```'', Opt (Alt (lit ''rust'') (Alt (lit ''verus'') (lit ''python''))),
                Star Space, Opt (Atom (Chr (CHR 0x0A)))])
         (seqs [lit ''```'', Star Space, Eol])"

definition block_rx :: rx where
  \<comment> \<open>\<^verbatim>\<open>r'<{7}\s*SEARCH\s*\n(.*?)\n={7}\s*\n(.*?)\n>{7}\s*REPLACE'\<close>, DOTALL\<close>
  "block_rx =
     seqs [lit ''<<<<<<<'', Star Space, lit ''SEARCH'', Star Space, Atom (Chr (CHR 0x0A)),
           Group (Lazy Dot), Atom (Chr (CHR 0x0A)), lit ''======='', Star Space,
           Atom (Chr (CHR 0x0A)), Group (Lazy Dot), Atom (Chr (CHR 0x0A)), lit ''>>>>>>>'',
           Star Space, lit ''REPLACE'']"

definition code_block_rx :: rx where
  \<comment> \<open>\<^verbatim>\<open>r'```(?:rust|verus)?\s*\n(.*?)```'\<close>, DOTALL\<close>
  "code_block_rx =
     seqs [lit ''```'', Opt (Alt (lit ''rust'') (lit ''verus'')), Star Space,
           Atom (Chr (CHR 0x0A)), Group (Lazy Dot), lit ''```'']"

section \<open>The patch engine\<close>

record SearchReplaceOperation =
  search_text :: string
  replace_text :: string

datatype error = IndexError

fun str_error :: "error \<Rightarrow> string" where
  \<comment> \<open>\<^verbatim>\<open>str(e)\<close>\<close>
  "str_error IndexError = ''list index out of range''"

definition list_get :: "'a list \<Rightarrow> nat \<Rightarrow> error + 'a" where
  \<comment> \<open>\<^verbatim>\<open>xs[i]\<close> for \<open>i \<ge> 0\<close>\<close>
  "list_get xs i = (if i < length xs then Inr (xs ! i) else Inl IndexError)"

subsection \<open>Parser\<close>

definition parse_search_replace_response :: "string \<Rightarrow> SearchReplaceOperation list" where
  "parse_search_replace_response response =
     (let response' = rx_sub_empty fence_rx response
      in map (\<lambda>caps. \<lparr>search_text = match_group caps 1, replace_text = match_group caps 2\<rparr>)
             (rx_finditer block_rx response'))"

subsection \<open>Applicator\<close>

function find_all_matches_from :: "string \<Rightarrow> string \<Rightarrow> nat \<Rightarrow> nat list" where
  \<comment> \<open>the \<^verbatim>\<open>while True\<close> loop of \<^verbatim>\<open>_find_all_matches\<close>, from the value of \<^verbatim>\<open>start\<close>\<close>
  "find_all_matches_from code search start =
     (case str_find_from code search start of
        None \<Rightarrow> []
      | Some pos \<Rightarrow> pos # find_all_matches_from code search (pos + 1))"
  by pat_completeness auto
termination
  by (relation "measure (\<lambda>(code, search, start). Suc (length code) - start)")
     (auto simp: str_find_from_def split: if_splits)

definition find_all_matches :: "string \<Rightarrow> string \<Rightarrow> nat list" where
  "find_all_matches code search = find_all_matches_from code search 0"

definition select_best_match :: "string \<Rightarrow> nat list \<Rightarrow> nat" where
  "select_best_match code matches = (case matches of [] \<Rightarrow> 0 | m # _ \<Rightarrow> m)"

definition replace_at_position :: "string \<Rightarrow> SearchReplaceOperation \<Rightarrow> nat \<Rightarrow> string" where
  "replace_at_position code op position =
     (let before = take position code;
          after = drop (position + length (search_text op)) code
      in before @ replace_text op @ after)"

fun window_matches :: "string list \<Rightarrow> nat \<Rightarrow> nat \<Rightarrow> string list \<Rightarrow> error + bool" where
  \<comment> \<open>the inner loop \<^verbatim>\<open>for j, search_line in enumerate(search_lines)\<close>, from index \<open>j\<close>\<close>
  "window_matches code_lines i j [] = Inr True"
| "window_matches code_lines i j (search_line # rest) =
     (case list_get code_lines (i + j) of
        Inl e \<Rightarrow> Inl e
      | Inr code_line \<Rightarrow>
          if strip search_line \<noteq> strip code_line then Inr False
          else window_matches code_lines i (Suc j) rest)"

definition window_range :: "string list \<Rightarrow> string list \<Rightarrow> nat list" where
  \<comment> \<open>\<^verbatim>\<open>range(len(code_lines) - len(search_lines) + 1)\<close>\<close>
  "window_range code_lines search_lines =
     [0 ..< nat (int (length code_lines) - int (length search_lines) + 1)]"

fun normalized_matches :: "string list \<Rightarrow> string list \<Rightarrow> nat list \<Rightarrow> error + nat list" where
  \<comment> \<open>the outer loop of \<^verbatim>\<open>_apply_with_normalized_whitespace\<close>, over the indices still to try\<close>
  "normalized_matches code_lines search_lines [] = Inr []"
| "normalized_matches code_lines search_lines (i # is) =
     (case window_matches code_lines i 0 search_lines of
        Inl e \<Rightarrow> Inl e
      | Inr m \<Rightarrow>
          (case normalized_matches code_lines search_lines is of
             Inl e \<Rightarrow> Inl e
           | Inr ms \<Rightarrow> Inr (if m then i # ms else ms)))"

definition select_best_line_match :: "string list \<Rightarrow> nat list \<Rightarrow> string list \<Rightarrow> nat" where
  "select_best_line_match code_lines matches search_lines =
     (case matches of [] \<Rightarrow> 0 | m # _ \<Rightarrow> m)"

definition indent_width :: "string \<Rightarrow> nat" where
  \<comment> \<open>\<^verbatim>\<open>len(line) - len(line.lstrip())\<close>\<close>
  "indent_width line = length line - length (lstrip line)"

definition reindent_first :: "nat \<Rightarrow> string \<Rightarrow> string" where
  "reindent_first base_indent line =
     (if strip line \<noteq> [] then replicate base_indent (CHR '' '') @ lstrip line else line)"

definition reindent_later :: "nat \<Rightarrow> string \<Rightarrow> string" where
  "reindent_later base_indent line =
     (if strip line \<noteq> []
      then (let original_indent = indent_width line
            in replicate (base_indent + original_indent) (CHR '' '') @ lstrip line)
      else line)"

definition reindent :: "nat \<Rightarrow> string list \<Rightarrow> string list" where
  \<comment> \<open>the block \<^verbatim>\<open>if replace_lines: ...\<close> of \<^verbatim>\<open>_replace_at_line_index\<close>\<close>
  "reindent base_indent replace_lines =
     (case replace_lines of
        [] \<Rightarrow> []
      | l # ls \<Rightarrow> reindent_first base_indent l # map (reindent_later base_indent) ls)"

definition replace_at_line_index ::
  "string list \<Rightarrow> SearchReplaceOperation \<Rightarrow> nat \<Rightarrow> error + string" where
  "replace_at_line_index code_lines op line_index =
     (let search_lines = splitlines (search_text op)
      in case list_get code_lines line_index of
           Inl e \<Rightarrow> Inl e
         | Inr first_line \<Rightarrow>
             (let base_indent = indent_width first_line;
                  replace_lines = reindent base_indent (splitlines (replace_text op))
              in Inr (join_lines (take line_index code_lines @ replace_lines @
                                  drop (line_index + length search_lines) code_lines))))"

definition apply_with_normalized_whitespace ::
  "string \<Rightarrow> SearchReplaceOperation \<Rightarrow> error + string" where
  "apply_with_normalized_whitespace code op =
     (let search_lines = splitlines (search_text op);
          code_lines = splitlines code
      in case normalized_matches code_lines search_lines (window_range code_lines search_lines) of
           Inl e \<Rightarrow> Inl e
         | Inr matches \<Rightarrow>
             if matches = [] then Inr code
             else replace_at_line_index code_lines op
                    (select_best_line_match code_lines matches search_lines))"

definition apply_single_operation :: "string \<Rightarrow> SearchReplaceOperation \<Rightarrow> error + string" where
  "apply_single_operation code op =
     (if str_contains (search_text op) code
      then (let matches = find_all_matches code (search_text op)
            in if 1 < length matches
               then Inr (replace_at_position code op (select_best_match code matches))
               else Inr (str_replace_first code (search_text op) (replace_text op)))
      else apply_with_normalized_whitespace code op)"

fun apply_search_replace_operations ::
  "string \<Rightarrow> SearchReplaceOperation list \<Rightarrow> error + string" where
  "apply_search_replace_operations modified_code [] = Inr modified_code"
| "apply_search_replace_operations modified_code (op # ops) =
     (case apply_single_operation modified_code op of
        Inl e \<Rightarrow> Inl e
      | Inr modified_code' \<Rightarrow> apply_search_replace_operations modified_code' ops)"

subsection \<open>Validator\<close>

fun normalized_found :: "string list \<Rightarrow> string list \<Rightarrow> nat list \<Rightarrow> error + bool" where
  \<comment> \<open>the loop over \<open>j\<close> of \<^verbatim>\<open>validate_operations\<close>, which stops at the first window\<close>
  "normalized_found code_lines search_lines [] = Inr False"
| "normalized_found code_lines search_lines (j # js) =
     (case window_matches code_lines j 0 search_lines of
        Inl e \<Rightarrow> Inl e
      | Inr m \<Rightarrow> if m then Inr True else normalized_found code_lines search_lines js)"

definition not_found_message :: "nat \<Rightarrow> SearchReplaceOperation \<Rightarrow> string" where
  \<comment> \<open>\<^verbatim>\<open>f"SEARCH block {i+1} not found: '{op.search_text[:50]}...'"\<close>\<close>
  "not_found_message i op =
     ''SEARCH block '' @ str_nat (i + 1) @ '' not found: '' @ [CHR 0x27] @
     take 50 (search_text op) @ ''...'' @ [CHR 0x27]"

fun validate_from ::
  "string \<Rightarrow> nat \<Rightarrow> SearchReplaceOperation list \<Rightarrow> error + (bool \<times> string)" where
  \<comment> \<open>\<^verbatim>\<open>for i, op in enumerate(operations)\<close>, from index \<open>i\<close>\<close>
  "validate_from original_code i [] = Inr (True, ''Valid'')"
| "validate_from original_code i (op # ops) =
     (if \<not> str_contains (search_text op) original_code
      then (let search_lines = splitlines (search_text op);
                code_lines = splitlines original_code
            in case normalized_found code_lines search_lines
                      (window_range code_lines search_lines) of
                 Inl e \<Rightarrow> Inl e
               | Inr found \<Rightarrow>
                   if \<not> found then Inr (False, not_found_message i op)
                   else validate_from original_code (Suc i) ops)
      else validate_from original_code (Suc i) ops)"

definition validate_operations ::
  "string \<Rightarrow> SearchReplaceOperation list \<Rightarrow> error + (bool \<times> string)" where
  "validate_operations original_code operations = validate_from original_code 0 operations"

subsection \<open>Orchestrator\<close>

type_synonym outcome = "string \<times> bool \<times> string"

definition apply_search_replace_format_body :: "string \<Rightarrow> string \<Rightarrow> error + outcome" where
  \<comment> \<open>the body of the \<^verbatim>\<open>try\<close> of \<^verbatim>\<open>_apply_search_replace_format\<close>\<close>
  "apply_search_replace_format_body original_code llm_response =
     (let operations = parse_search_replace_response llm_response
      in if operations = []
         then (let code_blocks = rx_findall code_block_rx llm_response
               in case code_blocks of
                    b # _ \<Rightarrow> Inr (strip b, True, ''Fallback to code block extraction'')
                  | [] \<Rightarrow> Inr (original_code, False,
                               ''No SEARCH/REPLACE operations or code blocks found''))
         else (case validate_operations original_code operations of
                 Inl e \<Rightarrow> Inl e
               | Inr (valid, message) \<Rightarrow>
                   if \<not> valid
                   then Inr (original_code, False,
                             ''Invalid SEARCH/REPLACE operations: '' @ message)
                   else (case apply_search_replace_operations original_code operations of
                           Inl e \<Rightarrow> Inl e
                         | Inr modified_code \<Rightarrow>
                             Inr (modified_code, True,
                                  ''Applied '' @ str_nat (length operations) @
                                  '' SEARCH/REPLACE operations''))))"

definition on_exception :: "string \<Rightarrow> error \<Rightarrow> outcome" where
  \<comment> \<open>the \<^verbatim>\<open>except Exception as e\<close> clause\<close>
  "on_exception original_code e =
     (original_code, False, ''Error processing SEARCH/REPLACE format: '' @ str_error e)"

definition try_except :: "string \<Rightarrow> error + outcome \<Rightarrow> outcome" where
  \<comment> \<open>the \<^verbatim>\<open>try\<close> statement: what the body returns, or what the \<^verbatim>\<open>except\<close> clause returns
      when the body raises\<close>
  "try_except original_code body =
     (case body of
        Inl e \<Rightarrow> on_exception original_code e
      | Inr result \<Rightarrow> result)"

definition apply_search_replace_format :: "string \<Rightarrow> string \<Rightarrow> outcome" where
  \<comment> \<open>\<^verbatim>\<open>_apply_search_replace_format\<close>, which \<^verbatim>\<open>apply_search_replace_format\<close> returns as it is\<close>
  "apply_search_replace_format original_code llm_response =
     try_except original_code (apply_search_replace_format_body original_code llm_response)"

section \<open>Notions used to state the properties\<close>

definition window_at :: "string list \<Rightarrow> string list \<Rightarrow> nat \<Rightarrow> bool" where
  \<comment> \<open>the lines of the target from index \<open>i\<close> on, as many as the search block has, equal
      the search lines once both are stripped\<close>
  "window_at code_lines search_lines i =
     (i + length search_lines \<le> length code_lines \<and>
      map strip (take (length search_lines) (drop i code_lines)) = map strip search_lines)"

definition first_window :: "string list \<Rightarrow> string list \<Rightarrow> nat option" where
  \<comment> \<open>the lowest index of a window, if there is one\<close>
  "first_window code_lines search_lines =
     (case filter (window_at code_lines search_lines) [0 ..< Suc (length code_lines)] of
        [] \<Rightarrow> None
      | i # _ \<Rightarrow> Some i)"

definition resolvable :: "string \<Rightarrow> string \<Rightarrow> bool" where
  \<comment> \<open>the search text resolves against the text: exactly, or by a window of stripped lines\<close>
  "resolvable code search =
     (str_contains search code \<or> first_window (splitlines code) (splitlines search) \<noteq> None)"

definition drop_fence_tag :: "string \<Rightarrow> string" where
  \<comment> \<open>the text after a language tag \<^verbatim>\<open>rust\<close>, \<^verbatim>\<open>verus\<close> or \<^verbatim>\<open>python\<close>, if the text starts
      with one\<close>
  "drop_fence_tag t =
     (if prefix ''rust'' t then drop 4 t
      else if prefix ''verus'' t then drop 5 t
      else if prefix ''python'' t then drop 6 t
      else t)"


definition extends :: "string list \<Rightarrow> string \<Rightarrow> string list \<Rightarrow> string \<Rightarrow> bool" where
  \<comment> \<open>from the state \<open>(caps, s)\<close> of a match to a later one: the rest is a suffix, and the new
      captures are pieces of \<open>s\<close>\<close>
  "extends caps s caps' s' =
     (suffix s' s \<and> (\<exists>new. caps' = caps @ new \<and> (\<forall>c\<in>set new. sublist c s)))"

section \<open>Example inputs\<close>

abbreviation NL :: string where
  "NL \<equiv> [CHR 0x0A]"

definition edit_block :: "string \<Rightarrow> string \<Rightarrow> string" where
  \<comment> \<open>the text of one edit block, written as the format instructions ask for it\<close>
  "edit_block search replace =
     ''<<<<<<< SEARCH'' @ NL @ search @ NL @ ''======='' @ NL @ replace @ NL @
     ''>>>>>>> REPLACE'' @ NL"

definition tolerant_code :: string where
  \<comment> \<open>a function body indented by 4\<close>
  "tolerant_code = ''fn f() {'' @ NL @ ''    assert(x);'' @ NL @ ''}''"

definition tolerant_op :: SearchReplaceOperation where
  \<comment> \<open>an edit of that line, written with an indentation of 8\<close>
  "tolerant_op = \<lparr>search_text = ''        assert(x);'',
                  replace_text = ''        assert(x > 0);''\<rparr>"

definition crlf_code :: string where
  \<comment> \<open>two lines, the first one ended by CR LF, the second one by LF\<close>
  "crlf_code = ''  a'' @ [CHR 0x0D, CHR 0x0A] @ ''b'' @ NL"




definition dependent_forward :: string where
  \<comment> \<open>two edit blocks, the second one searching what the first one writes\<close>
  "dependent_forward = edit_block ''a'' ''b'' @ edit_block ''b'' ''c''"

definition dependent_backward :: string where
  \<comment> \<open>the same two blocks in the other order\<close>
  "dependent_backward = edit_block ''b'' ''c'' @ edit_block ''a'' ''b''"

definition fallback_response :: string where
  \<comment> \<open>no edit block, one fenced block without a tag\<close>
  "fallback_response = ''```'' @ NL @ ''x=2'' @ NL @ ''```''"

definition prose_response :: string where
  \<comment> \<open>no edit block; prose with inline backquotes, then a \<^verbatim>\<open>rust\<close> block whose opening line
      ends with a space and whose content holds single backquotes\<close>
  "prose_response =
     ''Use `x`:'' @ NL @ ''```rust '' @ NL @ '' `a` '' @ NL @ ''```'' @ NL @ ''done''"

definition python_response :: string where
  \<comment> \<open>no edit block, one fenced block with the tag \<^verbatim>\<open>python\<close>\<close>
  "python_response = ''```python'' @ NL @ ''x=2'' @ NL @ ''```''"

definition indented_response :: string where
  \<comment> \<open>no edit block, one fenced block whose content is indented\<close>
  "indented_response = ''```rust'' @ NL @ ''    x=2'' @ NL @ ''```''"

section \<open>Strings: searching and replacing\<close>

declare rx_finditer.simps [simp del]
declare rx_sub_empty.simps [simp del]
declare find_all_matches_from.simps [simp del]
declare str_nat.simps [simp del]

lemma apply_search_replace_format_eq:
  "apply_search_replace_format original_code llm_response =
     (case apply_search_replace_format_body original_code llm_response of
        Inl e \<Rightarrow> on_exception original_code e
      | Inr result \<Rightarrow> result)"
  by (simp add: apply_search_replace_format_def try_except_def)

lemma str_find_SomeD:
  "str_find sub s = Some p \<Longrightarrow>
     p \<le> length s \<and> prefix sub (drop p s) \<and> (\<forall>q<p. \<not> prefix sub (drop q s))"
proof (induction s arbitrary: p)
  case Nil
  then show ?case by (auto split: if_splits)
next
  case (Cons c cs)
  show ?case
  proof (cases "prefix sub (c # cs)")
    case True
    with Cons.prems show ?thesis by simp
  next
    case False
    with Cons.prems obtain p' where p': "str_find sub cs = Some p'" "p = Suc p'"
      by auto
    from Cons.IH[OF p'(1)] have ih: "p' \<le> length cs" "prefix sub (drop p' cs)"
      "\<forall>q<p'. \<not> prefix sub (drop q cs)" by auto
    have "\<not> prefix sub (drop q (c # cs))" if "q < p" for q
    proof (cases q)
      case 0
      with False show ?thesis by simp
    next
      case (Suc q')
      with that p'(2) ih(3) show ?thesis by simp
    qed
    with ih p'(2) show ?thesis by simp
  qed
qed

lemma str_find_NoneD:
  "str_find sub s = None \<Longrightarrow> q \<le> length s \<Longrightarrow> \<not> prefix sub (drop q s)"
proof (induction s arbitrary: q)
  case Nil
  then show ?case by (auto split: if_splits)
next
  case (Cons c cs)
  from Cons.prems(1) have np: "\<not> prefix sub (c # cs)" and n: "str_find sub cs = None"
    by (auto split: if_splits)
  show ?case
  proof (cases q)
    case 0
    with np show ?thesis by simp
  next
    case (Suc q')
    with Cons.prems(2) Cons.IH[OF n, of q'] show ?thesis by simp
  qed
qed

lemma str_find_occurs:
  assumes "q \<le> length s" "prefix sub (drop q s)"
  shows "\<exists>p. str_find sub s = Some p \<and> p \<le> q"
proof (cases "str_find sub s")
  case None
  with str_find_NoneD[OF None assms(1)] assms(2) show ?thesis by simp
next
  case (Some p)
  from str_find_SomeD[OF Some] assms(2) have "\<not> q < p" by blast
  with Some show ?thesis by simp
qed

lemma prefix_drop_splice:
  assumes "prefix sub (drop p s)"
  shows "take p s @ sub @ drop (p + length sub) s = s"
proof -
  from assms obtain t where t: "drop p s = sub @ t" by (auto simp: prefix_def)
  have "drop (p + length sub) s = drop (length sub) (drop p s)" by (simp add: add.commute)
  also have "\<dots> = t" using t by simp
  finally have "take p s @ sub @ drop (p + length sub) s = take p s @ drop p s"
    using t by simp
  then show ?thesis by simp
qed

lemma str_find_from_0: "str_find_from code s 0 = str_find s code"
  by (cases "str_find s code") (simp_all add: str_find_from_def)

lemma find_all_matches_from_filter:
  "start \<le> Suc (length code) \<Longrightarrow>
   find_all_matches_from code s start =
     filter (\<lambda>p. prefix s (drop p code)) [start ..< Suc (length code)]"
proof (induction code s start rule: find_all_matches_from.induct)
  case (1 code search start)
  show ?case
  proof (cases "str_find_from code search start")
    case None
    have "\<not> prefix search (drop p code)" if "start \<le> p" "p \<le> length code" for p
    proof -
      from None that have n: "str_find search (drop start code) = None"
        by (auto simp: str_find_from_def split: if_splits)
      from str_find_NoneD[OF n, of "p - start"] that show ?thesis by simp
    qed
    then have "filter (\<lambda>p. prefix search (drop p code)) [start ..< Suc (length code)] = []"
      by (auto simp: filter_empty_conv)
    with None show ?thesis by (subst find_all_matches_from.simps) simp
  next
    case (Some pos)
    then obtain p' where p': "str_find search (drop start code) = Some p'" "pos = start + p'"
      and st: "start \<le> length code"
      by (auto simp: str_find_from_def split: if_splits)
    from str_find_SomeD[OF p'(1)] have d: "p' \<le> length code - start"
      "prefix search (drop pos code)" "\<forall>q<p'. \<not> prefix search (drop (start + q) code)"
      using p'(2) by (auto simp: add.commute)
    have le: "pos \<le> length code" using d(1) p'(2) st by simp
    have split: "[start ..< Suc (length code)] = [start ..< pos] @ pos # [Suc pos ..< Suc (length code)]"
    proof -
      have "[start ..< Suc (length code)] = [start ..< pos] @ [pos ..< Suc (length code)]"
        using upt_add_eq_append[of start pos "Suc (length code) - pos"] le p'(2) by simp
      moreover have "[pos ..< Suc (length code)] = pos # [Suc pos ..< Suc (length code)]"
        using le by (simp add: upt_conv_Cons)
      ultimately show ?thesis by simp
    qed
    have none: "filter (\<lambda>p. prefix search (drop p code)) [start ..< pos] = []"
    proof -
      have "\<not> prefix search (drop q code)" if "start \<le> q" "q < pos" for q
        using d(3)[rule_format, of "q - start"] that p'(2) by simp
      then show ?thesis by (auto simp: filter_empty_conv)
    qed
    have ih: "find_all_matches_from code search (pos + 1) =
        filter (\<lambda>p. prefix search (drop p code)) [pos + 1 ..< Suc (length code)]"
      using "1.IH"[OF Some] le by simp
    have "find_all_matches_from code search start =
            pos # find_all_matches_from code search (pos + 1)"
      by (subst find_all_matches_from.simps) (simp add: Some)
    then show ?thesis
      unfolding split using none d(2) ih by simp
  qed
qed

lemma find_all_matches_filter:
  "find_all_matches code s = filter (\<lambda>p. prefix s (drop p code)) [0 ..< Suc (length code)]"
  unfolding find_all_matches_def by (rule find_all_matches_from_filter) simp

lemma find_all_matches_hd:
  "str_find s code = Some p \<Longrightarrow> \<exists>ms. find_all_matches code s = p # ms"
  unfolding find_all_matches_def
  by (subst find_all_matches_from.simps) (simp add: str_find_from_0)

lemma apply_single_exact:
  assumes "str_find s code = Some p"
  shows "apply_single_operation code \<lparr>search_text = s, replace_text = r\<rparr> =
           Inr (take p code @ r @ drop (p + length s) code)"
proof -
  from find_all_matches_hd[OF assms] obtain ms where ms: "find_all_matches code s = p # ms" ..
  show ?thesis
    using assms ms
    by (simp add: apply_single_operation_def str_contains_def Let_def select_best_match_def
        replace_at_position_def str_replace_first_def)
qed

section \<open>Exact-match application\<close>

text \<open>
  Claim C3 (an operation whose \<^verbatim>\<open>search_text\<close> equals its \<^verbatim>\<open>replace_text\<close> leaves the text
  byte-identical), as amended: when the \<^verbatim>\<open>search_text\<close> occurs in the text as an exact
  substring, applying the operation returns the text unchanged. On the normalized path the
  replacement is re-indented and joined again, and the text can change.
\<close>

theorem noop_edit_exact_identity:
  assumes "str_contains s code"
  shows "apply_single_operation code \<lparr>search_text = s, replace_text = s\<rparr> = Inr code"
proof -
  from assms obtain p where p: "str_find s code = Some p"
    by (auto simp: str_contains_def)
  from str_find_SomeD[OF p] have "prefix s (drop p code)" by simp
  then have "take p code @ s @ drop (p + length s) code = code"
    by (rule prefix_drop_splice)
  with apply_single_exact[OF p, of s] show ?thesis by simp
qed

theorem noop_edit_exact_identity_witness:
  "str_contains ''a'' (''a'' @ [CHR 0x0A] @ ''b'') \<and>
   apply_single_operation (''a'' @ [CHR 0x0A] @ ''b'') \<lparr>search_text = ''a'', replace_text = ''a''\<rparr>
     = Inr (''a'' @ [CHR 0x0A] @ ''b'')"
proof -
  have h: "str_contains ''a'' (''a'' @ [CHR 0x0A] @ ''b'')" by code_simp
  from h noop_edit_exact_identity[OF h] show ?thesis by simp
qed

text \<open>
  The claim as stated fails on the normalized path: the search block \<^verbatim>\<open>a\<close>, \<^verbatim>\<open>b\<close> resolves
  against the two lines indented by 2 and 4, and replacing it by itself moves the second
  line to the indentation 2.
\<close>

theorem noop_edit_normalized_counterexample:
  "\<not> str_contains (''a'' @ [CHR 0x0A] @ ''b'') (''  a'' @ [CHR 0x0A] @ ''    b'') \<and>
   validate_operations (''  a'' @ [CHR 0x0A] @ ''    b'')
     [\<lparr>search_text = ''a'' @ [CHR 0x0A] @ ''b'', replace_text = ''a'' @ [CHR 0x0A] @ ''b''\<rparr>]
     = Inr (True, ''Valid'') \<and>
   apply_single_operation (''  a'' @ [CHR 0x0A] @ ''    b'')
     \<lparr>search_text = ''a'' @ [CHR 0x0A] @ ''b'', replace_text = ''a'' @ [CHR 0x0A] @ ''b''\<rparr>
     = Inr (''  a'' @ [CHR 0x0A] @ ''  b'') \<and>
   ''  a'' @ [CHR 0x0A] @ ''  b'' \<noteq> ''  a'' @ [CHR 0x0A] @ ''    b''"
  by code_simp

text \<open>
  Claim C5 (which occurrence is replaced when the \<^verbatim>\<open>search_text\<close> occurs more than once), as
  amended: the operation replaces the occurrence at the lowest offset \<open>p\<close> only, and the
  result is the text before \<open>p\<close>, the \<^verbatim>\<open>replace_text\<close>, and the text after that occurrence,
  byte for byte. Nothing outside the first occurrence changes, so every occurrence that
  starts at or after its end is still there, shifted by the difference of the lengths. For
  the text \<^verbatim>\<open>"A\nA\n"\<close>, searching \<^verbatim>\<open>"A"\<close> and replacing it by \<^verbatim>\<open>"B"\<close> gives \<^verbatim>\<open>"B\nA\n"\<close>.
\<close>

theorem first_occurrence_replaced:
  assumes "p1 < p2" "p2 \<le> length code" "prefix s (drop p1 code)" "prefix s (drop p2 code)"
  shows "\<exists>p res. p \<le> p1 \<and> prefix s (drop p code) \<and> (\<forall>q<p. \<not> prefix s (drop q code)) \<and>
           1 < length (find_all_matches code s) \<and>
           apply_single_operation code \<lparr>search_text = s, replace_text = r\<rparr> = Inr res \<and>
           res = take p code @ r @ drop (p + length s) code \<and>
           (\<forall>q. p + length s \<le> q \<and> q \<le> length code \<and> prefix s (drop q code) \<longrightarrow>
                prefix s (drop (q + length r - length s) res))"
proof -
  from assms have le1: "p1 \<le> length code" by simp
  from str_find_occurs[OF le1 assms(3)] obtain p where p: "str_find s code = Some p" "p \<le> p1"
    by blast
  from str_find_SomeD[OF p(1)] have f: "p \<le> length code" "prefix s (drop p code)"
    "\<forall>q<p. \<not> prefix s (drop q code)" by auto
  let ?res = "take p code @ r @ drop (p + length s) code"
  have "{p1, p2} \<subseteq> set (find_all_matches code s)"
    using assms le1 by (simp add: find_all_matches_filter del: upt_Suc)
  moreover have "distinct (find_all_matches code s)"
    by (simp add: find_all_matches_filter)
  ultimately have "card {p1, p2} \<le> length (find_all_matches code s)"
    by (metis card_mono distinct_card List.finite_set)
  with assms(1) have many: "1 < length (find_all_matches code s)" by simp
  have later: "prefix s (drop (q + length r - length s) ?res)"
    if "p + length s \<le> q" "prefix s (drop q code)" for q
  proof -
    have "drop (q + length r - length s) ?res = drop (q - length s - p) (drop (p + length s) code)"
      using that(1) f(1) by (simp add: min_def)
    also have "\<dots> = drop q code" using that(1) by simp
    finally show ?thesis using that(2) by simp
  qed
  show ?thesis
    using p(2) f(2,3) many apply_single_exact[OF p(1), of r] later by blast
qed

theorem first_occurrence_replaced_witness:
  "(0::nat) < 2 \<and> 2 \<le> length (''A'' @ [CHR 0x0A] @ ''A'' @ [CHR 0x0A]) \<and>
   prefix ''A'' (drop 0 (''A'' @ [CHR 0x0A] @ ''A'' @ [CHR 0x0A])) \<and>
   prefix ''A'' (drop 2 (''A'' @ [CHR 0x0A] @ ''A'' @ [CHR 0x0A])) \<and>
   apply_single_operation (''A'' @ [CHR 0x0A] @ ''A'' @ [CHR 0x0A])
      \<lparr>search_text = ''A'', replace_text = ''B''\<rparr> = Inr (''B'' @ [CHR 0x0A] @ ''A'' @ [CHR 0x0A])"
proof -
  have h: "(0::nat) < 2" "2 \<le> length (''A'' @ [CHR 0x0A] @ ''A'' @ [CHR 0x0A])"
    "prefix ''A'' (drop 0 (''A'' @ [CHR 0x0A] @ ''A'' @ [CHR 0x0A]))"
    "prefix ''A'' (drop 2 (''A'' @ [CHR 0x0A] @ ''A'' @ [CHR 0x0A]))" by simp_all
  from first_occurrence_replaced[OF h, of "''B''"] h show ?thesis by auto
qed

text \<open>
  The claim as stated fails for a later occurrence that overlaps the first one: \<^verbatim>\<open>aa\<close>
  occurs in \<^verbatim>\<open>aaa\<close> at the offsets 0 and 1, the occurrence at 0 is replaced, and the one at
  1 is not left as it was: the result \<^verbatim>\<open>ba\<close> holds no \<^verbatim>\<open>aa\<close>.
\<close>

theorem first_occurrence_overlap_counterexample:
  "find_all_matches ''aaa'' ''aa'' = [0, 1] \<and>
   prefix ''aa'' (drop 1 ''aaa'') \<and>
   apply_single_operation ''aaa'' \<lparr>search_text = ''aa'', replace_text = ''b''\<rparr> = Inr ''ba'' \<and>
   \<not> str_contains ''aa'' ''ba''"
  by code_simp

section \<open>Line windows\<close>

declare upt_Suc [simp del]

lemma window_matches_eq:
  "i + j + length S \<le> length L \<Longrightarrow>
   window_matches L i j S = Inr (map strip (take (length S) (drop (i + j) L)) = map strip S)"
proof (induction S arbitrary: j)
  case Nil
  then show ?case by simp
next
  case (Cons s S)
  from Cons.prems have lt: "i + j < length L" and le: "i + Suc j + length S \<le> length L"
    by simp_all
  have d: "drop (i + j) L = L ! (i + j) # drop (i + Suc j) L"
    using lt by (simp add: Cons_nth_drop_Suc)
  show ?case
    using Cons.IH[OF le] lt by (auto simp: list_get_def d)
qed

lemma window_matches_at:
  "i + length S \<le> length L \<Longrightarrow> window_matches L i 0 S = Inr (window_at L S i)"
  using window_matches_eq[of i 0 S L] by (simp add: window_at_def)

lemma window_range_upt:
  "window_range L S = [0 ..< Suc (length L) - length S]"
proof -
  have "nat (int (length L) - int (length S) + 1) = Suc (length L) - length S" by linarith
  then show ?thesis by (simp add: window_range_def)
qed

lemma in_window_range: "i \<in> set (window_range L S) \<longleftrightarrow> i + length S \<le> length L"
  by (auto simp: window_range_upt)

lemma normalized_matches_eq:
  "\<forall>i\<in>set is. i + length S \<le> length L \<Longrightarrow>
   normalized_matches L S is = Inr (filter (window_at L S) is)"
  by (induction "is") (simp_all add: window_matches_at)

lemma normalized_found_eq:
  "\<forall>i\<in>set is. i + length S \<le> length L \<Longrightarrow>
   normalized_found L S is = Inr (filter (window_at L S) is \<noteq> [])"
  by (induction "is") (simp_all add: window_matches_at)

lemma filter_window_range:
  "filter (window_at L S) (window_range L S) = filter (window_at L S) [0 ..< Suc (length L)]"
proof -
  have "[0 ..< Suc (length L)] =
          [0 ..< Suc (length L) - length S] @ [Suc (length L) - length S ..< Suc (length L)]"
    using upt_add_eq_append[of 0 "Suc (length L) - length S" "Suc (length L) - (Suc (length L) - length S)"]
    by simp
  moreover have "filter (window_at L S) [Suc (length L) - length S ..< Suc (length L)] = []"
    by (auto simp: filter_empty_conv window_at_def simp del: upt_Suc)
  ultimately show ?thesis by (simp add: window_range_upt del: upt_Suc)
qed

lemma filter_upt_first:
  assumes "filter P [0 ..< n] = i # rest"
  shows "P i \<and> i < n \<and> (\<forall>q<i. \<not> P q)"
proof -
  from filter_eq_ConsD[OF assms] obtain us vs
    where f: "[0 ..< n] = us @ i # vs" "\<forall>u\<in>set us. \<not> P u" "P i"
    by blast
  have len: "length us < n" using arg_cong[OF f(1), of length] by simp
  have "[0 ..< n] ! length us = i" using f(1) by (simp add: nth_append)
  with len have i: "i = length us" by simp
  have "take (length us) [0 ..< n] = us" using f(1) by simp
  then have "set us = set [0 ..< length us]" using len by (simp add: take_upt)
  then have "\<forall>q<length us. q \<in> set us" by simp
  with f(2) have "\<forall>q<length us. \<not> P q" by blast
  with f(3) len show ?thesis unfolding i by blast
qed

lemma first_window_SomeD:
  "first_window L S = Some i \<Longrightarrow> window_at L S i \<and> (\<forall>q<i. \<not> window_at L S q)"
  using filter_upt_first[of "window_at L S" "Suc (length L)" i]
  by (auto simp: first_window_def split: list.splits)

lemma first_window_exists:
  assumes "window_at L S q"
  shows "\<exists>i. first_window L S = Some i \<and> i \<le> q"
proof -
  from assms have "q < Suc (length L)" by (simp add: window_at_def)
  with assms have "q \<in> set (filter (window_at L S) [0 ..< Suc (length L)])"
    by (simp del: upt_Suc)
  then obtain i rest where f: "filter (window_at L S) [0 ..< Suc (length L)] = i # rest"
    by (cases "filter (window_at L S) [0 ..< Suc (length L)]") auto
  from filter_upt_first[OF f] assms have "\<not> q < i" by blast
  with f show ?thesis by (simp add: first_window_def)
qed

lemma splitlines_acc_Nil: "splitlines_acc cur s = [] \<longleftrightarrow> cur = [] \<and> s = []"
  by (induction cur s rule: splitlines_acc.induct) auto

lemma splitlines_Nil: "splitlines s = [] \<longleftrightarrow> s = []"
  by (simp add: splitlines_def splitlines_acc_Nil)

lemma str_contains_Nil: "str_contains [] code"
  by (cases code) (simp_all add: str_contains_def)

lemma window_at_bound:
  "window_at L S i \<Longrightarrow> S \<noteq> [] \<Longrightarrow> i < length L"
  by (cases S) (auto simp: window_at_def)

lemma replace_at_line_index_eq:
  "i < length L \<Longrightarrow>
   replace_at_line_index L op i =
     Inr (join_lines (take i L @ reindent (indent_width (L ! i)) (splitlines (replace_text op)) @
                      drop (i + length (splitlines (search_text op))) L))"
  by (simp add: replace_at_line_index_def list_get_def Let_def)

lemma apply_with_normalized_whitespace_eq:
  assumes "search_text op \<noteq> []"
  shows "apply_with_normalized_whitespace code op =
     (case first_window (splitlines code) (splitlines (search_text op)) of
        None \<Rightarrow> Inr code
      | Some i \<Rightarrow>
          Inr (join_lines (take i (splitlines code) @
                 reindent (indent_width (splitlines code ! i)) (splitlines (replace_text op)) @
                 drop (i + length (splitlines (search_text op))) (splitlines code))))"
proof -
  let ?L = "splitlines code" and ?S = "splitlines (search_text op)"
  have S: "?S \<noteq> []" using assms by (simp add: splitlines_Nil)
  have nm: "normalized_matches ?L ?S (window_range ?L ?S) =
              Inr (filter (window_at ?L ?S) [0 ..< Suc (length ?L)])"
    using normalized_matches_eq[of "window_range ?L ?S" ?S ?L]
    by (simp add: in_window_range filter_window_range)
  show ?thesis
  proof (cases "first_window ?L ?S")
    case None
    then have "filter (window_at ?L ?S) [0 ..< Suc (length ?L)] = []"
      by (simp add: first_window_def split: list.splits)
    with None nm show ?thesis
      by (simp add: apply_with_normalized_whitespace_def Let_def)
  next
    case (Some i)
    then obtain rest where f: "filter (window_at ?L ?S) [0 ..< Suc (length ?L)] = i # rest"
      by (auto simp: first_window_def split: list.splits)
    from first_window_SomeD[OF Some] S have "i < length ?L"
      by (blast intro: window_at_bound)
    then show ?thesis
      using Some nm f
      by (simp add: apply_with_normalized_whitespace_def Let_def select_best_line_match_def
          replace_at_line_index_eq)
  qed
qed

lemma apply_single_normalized:
  assumes "\<not> str_contains (search_text op) code"
  shows "apply_single_operation code op =
     (case first_window (splitlines code) (splitlines (search_text op)) of
        None \<Rightarrow> Inr code
      | Some i \<Rightarrow>
          Inr (join_lines (take i (splitlines code) @
                 reindent (indent_width (splitlines code ! i)) (splitlines (replace_text op)) @
                 drop (i + length (splitlines (search_text op))) (splitlines code))))"
proof -
  from assms have "search_text op \<noteq> []" using str_contains_Nil by auto
  from apply_with_normalized_whitespace_eq[OF this] assms show ?thesis
    by (simp add: apply_single_operation_def)
qed

lemma validate_from_step:
  "validate_from code i (op # ops) =
     (if resolvable code (search_text op) then validate_from code (Suc i) ops
      else Inr (False, not_found_message i op))"
proof -
  let ?L = "splitlines code" and ?S = "splitlines (search_text op)"
  have nf: "normalized_found ?L ?S (window_range ?L ?S) = Inr (first_window ?L ?S \<noteq> None)"
    using normalized_found_eq[of "window_range ?L ?S" ?S ?L]
    by (simp add: in_window_range filter_window_range first_window_def split: list.splits)
  show ?thesis by (simp add: resolvable_def Let_def nf)
qed

lemma validate_from_all:
  "\<forall>op\<in>set ops. resolvable code (search_text op) \<Longrightarrow>
   validate_from code i ops = Inr (True, ''Valid'')"
  by (induction ops arbitrary: i) (simp_all add: validate_from_step del: validate_from.simps(2))

lemma validate_from_first_failure:
  "\<forall>x\<in>set pre. resolvable code (search_text x) \<Longrightarrow> \<not> resolvable code (search_text op) \<Longrightarrow>
   validate_from code i (pre @ op # post) = Inr (False, not_found_message (i + length pre) op)"
  by (induction pre arbitrary: i) (simp_all add: validate_from_step del: validate_from.simps(2))

section \<open>No operation of the pipeline faults\<close>

lemma validate_from_no_fault: "\<exists>r. validate_from code i ops = Inr r"
  by (induction ops arbitrary: i) (auto simp add: validate_from_step simp del: validate_from.simps(2))

lemma apply_single_no_fault: "\<exists>r. apply_single_operation code op = Inr r"
proof (cases "str_contains (search_text op) code")
  case True
  then obtain p where "str_find (search_text op) code = Some p"
    by (auto simp: str_contains_def)
  from apply_single_exact[OF this, of "replace_text op"] show ?thesis by (cases op) auto
next
  case False
  from apply_single_normalized[OF False] show ?thesis
    by (cases "first_window (splitlines code) (splitlines (search_text op))") auto
qed

lemma apply_operations_no_fault: "\<exists>r. apply_search_replace_operations code ops = Inr r"
proof (induction ops arbitrary: code)
  case Nil
  show ?case by simp
next
  case (Cons op ops)
  from apply_single_no_fault obtain c where "apply_single_operation code op = Inr c" by blast
  with Cons.IH[of c] show ?case by simp
qed

lemma body_no_fault: "\<exists>out. apply_search_replace_format_body original response = Inr out"
proof -
  let ?ops = "parse_search_replace_response response"
  obtain v m where v: "validate_operations original ?ops = Inr (v, m)"
    using validate_from_no_fault[of original 0 ?ops] by (auto simp: validate_operations_def)
  obtain c where c: "apply_search_replace_operations original ?ops = Inr c"
    using apply_operations_no_fault by blast
  show ?thesis
    by (auto simp add: apply_search_replace_format_body_def Let_def v c split: list.splits)
qed

text \<open>
  Claim C4: for every pair of strings the orchestrator returns a triple. No step of the
  \<^verbatim>\<open>try\<close> body raises on strings (every list index stays in range), so the result is the
  body's triple. The orchestrator is the \<^verbatim>\<open>try\<close> statement around that body, and whatever
  fault \<open>e\<close> a body raises, the statement returns the original text, \<^verbatim>\<open>False\<close> and a
  message that ends with the description of \<open>e\<close>.
\<close>

theorem orchestrator_never_raises:
  "(\<exists>out. apply_search_replace_format_body original response = Inr out \<and>
          apply_search_replace_format original response = out) \<and>
   apply_search_replace_format original response =
     try_except original (apply_search_replace_format_body original response) \<and>
   try_except original (Inl e) =
     (original, False, ''Error processing SEARCH/REPLACE format: '' @ str_error e) \<and>
   try_except original (Inr result) = result"
proof -
  from body_no_fault obtain out
    where b: "apply_search_replace_format_body original response = Inr out" by blast
  then have f: "apply_search_replace_format original response = out"
    by (simp add: apply_search_replace_format_eq)
  have 1: "\<exists>out. apply_search_replace_format_body original response = Inr out \<and>
          apply_search_replace_format original response = out"
    using b f by blast
  have 2: "apply_search_replace_format original response =
     try_except original (apply_search_replace_format_body original response)"
    by (simp add: apply_search_replace_format_def)
  have 3: "try_except original (Inl e) =
     (original, False, ''Error processing SEARCH/REPLACE format: '' @ str_error e)"
    by (simp add: try_except_def on_exception_def)
  have 4: "try_except original (Inr result) = result"
    by (simp add: try_except_def)
  from 1 2 3 4 show ?thesis by blast
qed

section \<open>Validation\<close>

text \<open>
  Claim C6: when some operation of the parsed sequence resolves neither exactly nor by a
  window of stripped lines, validation fails at the first such operation, whatever the
  operations after it are; the orchestrator returns the original text with \<^verbatim>\<open>False\<close>, and
  the message gives the 1-based index of that operation and the first 50 characters of its
  \<^verbatim>\<open>search_text\<close>.
\<close>

theorem validation_fails_at_first_unresolved:
  assumes "parse_search_replace_response response = pre @ op # post"
    and "\<forall>x\<in>set pre. resolvable code (search_text x)"
    and "\<not> resolvable code (search_text op)"
  shows "validate_operations code (pre @ op # later) =
           Inr (False, ''SEARCH block '' @ str_nat (length pre + 1) @ '' not found: '' @
                       [CHR 0x27] @ take 50 (search_text op) @ ''...'' @ [CHR 0x27]) \<and>
         apply_search_replace_format code response =
           (code, False,
            ''Invalid SEARCH/REPLACE operations: '' @
            ''SEARCH block '' @ str_nat (length pre + 1) @ '' not found: '' @
            [CHR 0x27] @ take 50 (search_text op) @ ''...'' @ [CHR 0x27])"
proof -
  have v: "validate_operations code (pre @ op # l) = Inr (False, not_found_message (length pre) op)"
    for l
    using validate_from_first_failure[OF assms(2,3), of 0 l]
    by (simp add: validate_operations_def)
  have "apply_search_replace_format code response =
          (code, False, ''Invalid SEARCH/REPLACE operations: '' @ not_found_message (length pre) op)"
    using v[of post]
    by (simp add: apply_search_replace_format_eq apply_search_replace_format_body_def assms(1))
  with v[of later] show ?thesis
    by (simp add: not_found_message_def)
qed

theorem validation_fails_at_first_unresolved_witness:
  "apply_search_replace_format ''a''
     (edit_block ''a'' ''b'' @ edit_block ''z'' ''c'' @ edit_block ''q'' ''r'') =
   (''a'', False,
    ''Invalid SEARCH/REPLACE operations: SEARCH block 2 not found: '' @
    [CHR 0x27] @ ''z...'' @ [CHR 0x27])"
proof -
  have p: "parse_search_replace_response
             (edit_block ''a'' ''b'' @ edit_block ''z'' ''c'' @ edit_block ''q'' ''r'') =
           [\<lparr>search_text = ''a'', replace_text = ''b''\<rparr>] @
           \<lparr>search_text = ''z'', replace_text = ''c''\<rparr> #
           [\<lparr>search_text = ''q'', replace_text = ''r''\<rparr>]"
    by code_simp
  have "resolvable ''a'' ''a''" by code_simp
  then have r1: "\<forall>x\<in>set [\<lparr>search_text = ''a'', replace_text = ''b''\<rparr>].
                   resolvable ''a'' (search_text x)" by simp
  have "\<not> resolvable ''a'' ''z''" by code_simp
  then have r2: "\<not> resolvable ''a'' (search_text \<lparr>search_text = ''z'', replace_text = ''c''\<rparr>)"
    by simp
  have n: "str_nat (Suc (Suc 0)) = ''2''" by code_simp
  from validation_fails_at_first_unresolved[OF p r1 r2, where later = "[]"] show ?thesis
    by (simp add: n)
qed

section \<open>Whitespace-tolerant matching\<close>

text \<open>
  Claim C8: when the \<^verbatim>\<open>search_text\<close> has no exact occurrence in the text but some window of
  the text's lines equals the search lines after stripping, validation accepts the
  operation, and applying it takes the replacement branch, at the lowest such window: the
  result is the lines before the window, the re-indented replacement lines and the lines
  after the window, joined again.
\<close>

theorem whitespace_tolerant_match_resolves:
  assumes "\<not> str_contains (search_text op) code"
    and "window_at (splitlines code) (splitlines (search_text op)) q"
  shows "validate_operations code [op] = Inr (True, ''Valid'') \<and>
         (\<exists>i. i \<le> q \<and> window_at (splitlines code) (splitlines (search_text op)) i \<and>
              first_window (splitlines code) (splitlines (search_text op)) = Some i \<and>
              apply_single_operation code op =
                Inr (join_lines
                      (take i (splitlines code) @
                       reindent (indent_width (splitlines code ! i))
                         (splitlines (replace_text op)) @
                       drop (i + length (splitlines (search_text op))) (splitlines code))))"
proof -
  from first_window_exists[OF assms(2)] obtain i
    where i: "first_window (splitlines code) (splitlines (search_text op)) = Some i" "i \<le> q"
    by blast
  from i(1) have "resolvable code (search_text op)" by (simp add: resolvable_def)
  then have v: "validate_operations code [op] = Inr (True, ''Valid'')"
    by (simp add: validate_operations_def validate_from_step del: validate_from.simps(2))
  from first_window_SomeD[OF i(1)] apply_single_normalized[OF assms(1)] i v
  show ?thesis by simp
qed

theorem whitespace_tolerant_match_resolves_witness:
  "\<not> str_contains (search_text tolerant_op) tolerant_code \<and>
   window_at (splitlines tolerant_code) (splitlines (search_text tolerant_op)) 1 \<and>
   validate_operations tolerant_code [tolerant_op] = Inr (True, ''Valid'') \<and>
   apply_single_operation tolerant_code tolerant_op =
     Inr (''fn f() {'' @ NL @ ''    assert(x > 0);'' @ NL @ ''}'')"
proof -
  have h1: "\<not> str_contains (search_text tolerant_op) tolerant_code" by code_simp
  have h2: "window_at (splitlines tolerant_code) (splitlines (search_text tolerant_op)) 1"
    by code_simp
  have e: "apply_single_operation tolerant_code tolerant_op =
     Inr (''fn f() {'' @ NL @ ''    assert(x > 0);'' @ NL @ ''}'')" by code_simp
  from whitespace_tolerant_match_resolves[OF h1 h2] h1 h2 e show ?thesis by simp
qed

section \<open>Re-indentation\<close>

lemma is_space_blank: "is_space (CHR '' '')"
  by (simp add: is_space_def)

lemma strip_nonempty_lstrip:
  assumes "strip l \<noteq> []"
  shows "lstrip l \<noteq> [] \<and> \<not> is_space (hd (lstrip l))"
proof -
  from assms have ne: "lstrip l \<noteq> []" by (auto simp: strip_def rstrip_def)
  then have "\<not> is_space (hd (lstrip l))"
    unfolding lstrip_def by (rule hd_dropWhile)
  with ne show ?thesis by simp
qed

lemma leading_spaces_of_reindented:
  assumes "strip l \<noteq> []"
  shows "takeWhile is_space (replicate n (CHR '' '') @ lstrip l) = replicate n (CHR '' '')"
proof -
  from strip_nonempty_lstrip[OF assms] obtain c cs
    where l: "lstrip l = c # cs" "\<not> is_space c" by (cases "lstrip l") auto
  have "takeWhile is_space (replicate n (CHR '' '') @ lstrip l) =
          replicate n (CHR '' '') @ takeWhile is_space (lstrip l)"
    by (rule takeWhile_append2) (simp add: is_space_blank)
  with l show ?thesis by simp
qed

lemma length_reindent: "length (reindent b ls) = length ls"
  by (cases ls) (simp_all add: reindent_def)

lemma reindent_nth_0:
  "ls \<noteq> [] \<Longrightarrow> reindent b ls ! 0 = reindent_first b (ls ! 0)"
  by (cases ls) (simp_all add: reindent_def)

lemma reindent_nth_later:
  "0 < k \<Longrightarrow> k < length ls \<Longrightarrow> reindent b ls ! k = reindent_later b (ls ! k)"
  by (cases ls; cases k) (simp_all add: reindent_def)

lemma reindent_blank:
  "k < length ls \<Longrightarrow> strip (ls ! k) = [] \<Longrightarrow> reindent b ls ! k = ls ! k"
  by (cases ls; cases k) (simp_all add: reindent_def reindent_first_def reindent_later_def)

text \<open>
  Claim C7 (how a replacement made on the normalized path is re-indented), as amended: with
  \<open>base_indent\<close> the width of the leading whitespace of the first matched line, the first
  line of the \<^verbatim>\<open>replace_text\<close>, when it is not blank, is emitted with exactly \<open>base_indent\<close>
  leading spaces and without its own leading whitespace; every non-blank line after the
  first line is emitted with \<open>base_indent\<close> plus the width of its own leading whitespace;
  blank lines are emitted as they are. A first line that is blank is not the line that gets
  \<open>base_indent\<close> alone.
\<close>

theorem reindentation_on_normalized_path:
  assumes "i < length code_lines"
  shows "\<exists>out. replace_at_line_index code_lines op i =
                 Inr (join_lines (take i code_lines @ out @
                        drop (i + length (splitlines (search_text op))) code_lines)) \<and>
           length out = length (splitlines (replace_text op)) \<and>
           (\<forall>k < length out.
              let line = splitlines (replace_text op) ! k;
                  base_indent = indent_width (code_lines ! i)
              in if strip line = [] then out ! k = line
                 else if k = 0
                 then out ! k = replicate base_indent (CHR '' '') @ lstrip line \<and>
                      takeWhile is_space (out ! k) = replicate base_indent (CHR '' '')
                 else out ! k = replicate (base_indent + indent_width line) (CHR '' '') @
                                 lstrip line \<and>
                      takeWhile is_space (out ! k) =
                        replicate (base_indent + indent_width line) (CHR '' ''))"
proof -
  let ?R = "splitlines (replace_text op)"
  let ?b = "indent_width (code_lines ! i)"
  let ?out = "reindent ?b ?R"
  have 1: "replace_at_line_index code_lines op i =
             Inr (join_lines (take i code_lines @ ?out @
                    drop (i + length (splitlines (search_text op))) code_lines))"
    using assms by (rule replace_at_line_index_eq)
  have 2: "length ?out = length ?R" by (rule length_reindent)
  have 3: "if strip (?R ! k) = [] then ?out ! k = ?R ! k
           else if k = 0
           then ?out ! k = replicate ?b (CHR '' '') @ lstrip (?R ! k) \<and>
                takeWhile is_space (?out ! k) = replicate ?b (CHR '' '')
           else ?out ! k = replicate (?b + indent_width (?R ! k)) (CHR '' '') @ lstrip (?R ! k) \<and>
                takeWhile is_space (?out ! k) =
                  replicate (?b + indent_width (?R ! k)) (CHR '' '')"
    if k: "k < length ?R" for k
  proof (cases "strip (?R ! k) = []")
    case True
    with reindent_blank[OF k True] show ?thesis by simp
  next
    case False
    show ?thesis
    proof (cases "k = 0")
      case True
      from k True have "?out ! 0 = reindent_first ?b (?R ! 0)"
        by (intro reindent_nth_0) auto
      with False True leading_spaces_of_reindented[OF False, of ?b]
      show ?thesis by (simp add: reindent_first_def)
    next
      case k0: False
      then have "?out ! k = reindent_later ?b (?R ! k)"
        using k by (intro reindent_nth_later) auto
      with False k0 leading_spaces_of_reindented[OF False, of "?b + indent_width (?R ! k)"]
      show ?thesis by (simp add: reindent_later_def Let_def)
    qed
  qed
  have 4: "\<forall>k < length ?out.
              let line = ?R ! k; base_indent = ?b
              in if strip line = [] then ?out ! k = line
                 else if k = 0
                 then ?out ! k = replicate base_indent (CHR '' '') @ lstrip line \<and>
                      takeWhile is_space (?out ! k) = replicate base_indent (CHR '' '')
                 else ?out ! k = replicate (base_indent + indent_width line) (CHR '' '') @
                                 lstrip line \<and>
                      takeWhile is_space (?out ! k) =
                        replicate (base_indent + indent_width line) (CHR '' '')"
    unfolding Let_def 2 by (intro allI impI) (rule 3)
  from 1 2 4 show ?thesis by blast
qed

theorem reindentation_on_normalized_path_witness:
  "(0::nat) < length [''    x''] \<and>
   replace_at_line_index [''    x'']
     \<lparr>search_text = ''x '', replace_text = ''a'' @ NL @ ''  b''\<rparr> 0 =
     Inr (''    a'' @ NL @ ''      b'')"
proof -
  have h: "(0::nat) < length [''    x'']" by simp
  have e: "replace_at_line_index [''    x'']
     \<lparr>search_text = ''x '', replace_text = ''a'' @ NL @ ''  b''\<rparr> 0 =
     Inr (''    a'' @ NL @ ''      b'')" by code_simp
  from reindentation_on_normalized_path[OF h,
      of "\<lparr>search_text = ''x '', replace_text = ''a'' @ NL @ ''  b''\<rparr>"] h e
  show ?thesis by blast
qed

text \<open>
  The claim as stated fails when the first line of the \<^verbatim>\<open>replace_text\<close> is blank: in a
  window indented by 4, the replacement of an empty line and \<^verbatim>\<open>"  b"\<close> has \<^verbatim>\<open>"  b"\<close> as its
  first non-blank line, and that line is emitted with 6 spaces, not with 4.
\<close>

theorem reindentation_first_nonblank_counterexample:
  "\<not> str_contains ''x '' ''    x'' \<and>
   splitlines (NL @ ''  b'') = ['''', ''  b''] \<and>
   indent_width ''    x'' = 4 \<and>
   apply_single_operation ''    x'' \<lparr>search_text = ''x '', replace_text = NL @ ''  b''\<rparr> =
     Inr (NL @ ''      b'') \<and>
   ''      b'' \<noteq> replicate 4 (CHR '' '') @ lstrip ''  b''"
  by code_simp

section \<open>Lines and their terminators\<close>

lemma splitlines_acc_no_linebreak:
  "\<forall>c\<in>set cur. \<not> is_linebreak c \<Longrightarrow>
   \<forall>l\<in>set (splitlines_acc cur s). \<forall>c\<in>set l. \<not> is_linebreak c"
proof (induction cur s rule: splitlines_acc.induct)
  case (1 cur)
  then show ?case by simp
next
  case (2 cur c)
  then show ?case by simp
next
  case (3 cur c d cs)
  show ?case
  proof (cases "c = CHR 0x0D \<and> d = CHR 0x0A")
    case True
    from "3.IH"(1)[OF True] have "\<forall>l\<in>set (splitlines_acc [] cs). \<forall>c\<in>set l. \<not> is_linebreak c"
      by simp
    with True "3.prems" show ?thesis by simp
  next
    case nocrlf: False
    show ?thesis
    proof (cases "is_linebreak c")
      case True
      from "3.IH"(2)[OF nocrlf True]
      have "\<forall>l\<in>set (splitlines_acc [] (d # cs)). \<forall>c\<in>set l. \<not> is_linebreak c" by simp
      with nocrlf True "3.prems" show ?thesis by auto
    next
      case False
      with "3.prems" have "\<forall>x\<in>set (cur @ [c]). \<not> is_linebreak x" by simp
      from "3.IH"(3)[OF nocrlf False this]
      have "\<forall>l\<in>set (splitlines_acc (cur @ [c]) (d # cs)). \<forall>c\<in>set l. \<not> is_linebreak c" .
      with nocrlf False show ?thesis by auto
    qed
  qed
qed

lemma splitlines_no_linebreak:
  "l \<in> set (splitlines s) \<Longrightarrow> c \<in> set l \<Longrightarrow> \<not> is_linebreak c"
  using splitlines_acc_no_linebreak[of "[]" s] by (auto simp: splitlines_def)

lemma blank_not_linebreak: "\<not> is_linebreak (CHR '' '')"
  by (simp add: is_linebreak_def)

lemma reindent_first_chars:
  "c \<in> set (reindent_first b l) \<Longrightarrow> c = CHR '' '' \<or> c \<in> set l"
  by (auto simp: reindent_first_def lstrip_def split: if_splits dest: set_dropWhileD)

lemma reindent_later_chars:
  "c \<in> set (reindent_later b l) \<Longrightarrow> c = CHR '' '' \<or> c \<in> set l"
  by (auto simp: reindent_later_def lstrip_def Let_def split: if_splits dest: set_dropWhileD)

lemma reindent_no_linebreak:
  assumes "\<forall>l\<in>set ls. \<forall>c\<in>set l. \<not> is_linebreak c"
  shows "\<forall>l\<in>set (reindent b ls). \<forall>c\<in>set l. \<not> is_linebreak c"
proof (cases ls)
  case Nil
  then show ?thesis by (simp add: reindent_def)
next
  case (Cons x xs)
  show ?thesis
  proof (intro ballI)
    fix l c assume l: "l \<in> set (reindent b ls)" and c: "c \<in> set l"
    from l Cons consider "l = reindent_first b x" | y where "y \<in> set xs" "l = reindent_later b y"
      by (auto simp: reindent_def)
    then show "\<not> is_linebreak c"
    proof cases
      case 1
      with c reindent_first_chars[of c b x] assms Cons blank_not_linebreak show ?thesis by auto
    next
      case 2
      with c reindent_later_chars[of c b y] assms Cons blank_not_linebreak show ?thesis by auto
    qed
  qed
qed

lemma set_join_lines: "set (join_lines ls) \<subseteq> {CHR 0x0A} \<union> (\<Union>l\<in>set ls. set l)"
  by (induction ls rule: join_lines.induct) auto

lemma count_newlines_join:
  "\<forall>l\<in>set ls. CHR 0x0A \<notin> set l \<Longrightarrow>
   length (filter (\<lambda>c. c = CHR 0x0A) (join_lines ls)) = length ls - 1"
proof (induction ls rule: join_lines.induct)
  case 1
  show ?case by simp
next
  case (2 l)
  then have "filter (\<lambda>c. c = CHR 0x0A) l = []" by (auto simp: filter_empty_conv)
  then show ?case by simp
next
  case (3 l m ls)
  then have "filter (\<lambda>c. c = CHR 0x0A) l = []" by (auto simp: filter_empty_conv)
  with 3 show ?case by simp
qed

lemma linebreak_chars: "is_linebreak (CHR 0x0A)" "is_linebreak (CHR 0x0D)"
  by (simp_all add: is_linebreak_def)

text \<open>
  Claim C10: when an operation is applied on the normalized path and a window exists, the
  result is the join, with single \<^verbatim>\<open>'\n'\<close> characters, of the list of lines: no line of that
  list holds a line terminator, so the result has no \<^verbatim>\<open>'\r'\<close> left and exactly one \<^verbatim>\<open>'\n'\<close>
  between two consecutive lines and none after the last one, whatever terminators and final
  newline the input had. On the exact path the text around the occurrence is kept as it is.
\<close>

theorem normalized_path_rejoins_lines:
  assumes "\<not> str_contains (search_text op) code"
    and "first_window (splitlines code) (splitlines (search_text op)) = Some i"
  shows "\<exists>lines. lines = take i (splitlines code) @
                    reindent (indent_width (splitlines code ! i)) (splitlines (replace_text op)) @
                    drop (i + length (splitlines (search_text op))) (splitlines code) \<and>
           apply_single_operation code op = Inr (join_lines lines) \<and>
           (\<forall>l\<in>set lines. \<forall>c\<in>set l. \<not> is_linebreak c) \<and>
           CHR 0x0D \<notin> set (join_lines lines) \<and>
           length (filter (\<lambda>c. c = CHR 0x0A) (join_lines lines)) = length lines - 1 \<and>
           (str_find search' code' = Some p \<longrightarrow>
              apply_single_operation code' \<lparr>search_text = search', replace_text = replace'\<rparr> =
                Inr (take p code' @ replace' @ drop (p + length search') code'))"
proof -
  let ?L = "splitlines code"
  let ?lines = "take i ?L @ reindent (indent_width (?L ! i)) (splitlines (replace_text op)) @
                drop (i + length (splitlines (search_text op))) ?L"
  have a: "apply_single_operation code op = Inr (join_lines ?lines)"
    using apply_single_normalized[OF assms(1)] assms(2) by simp
  have L: "\<forall>l\<in>set ?L. \<forall>c\<in>set l. \<not> is_linebreak c"
    using splitlines_no_linebreak by blast
  have R: "\<forall>l\<in>set (reindent (indent_width (?L ! i)) (splitlines (replace_text op))).
             \<forall>c\<in>set l. \<not> is_linebreak c"
    by (rule reindent_no_linebreak) (use splitlines_no_linebreak in blast)
  have b: "\<forall>l\<in>set ?lines. \<forall>c\<in>set l. \<not> is_linebreak c"
    using L R by (auto dest: in_set_takeD in_set_dropD)
  have c: "CHR 0x0D \<notin> set (join_lines ?lines)"
  proof
    assume "CHR 0x0D \<in> set (join_lines ?lines)"
    with set_join_lines[of ?lines] obtain l where "l \<in> set ?lines" "CHR 0x0D \<in> set l"
      by auto
    with b linebreak_chars(2) show False by blast
  qed
  have d: "length (filter (\<lambda>c. c = CHR 0x0A) (join_lines ?lines)) = length ?lines - 1"
    by (rule count_newlines_join) (use b linebreak_chars(1) in blast)
  have e: "str_find search' code' = Some p \<longrightarrow>
              apply_single_operation code' \<lparr>search_text = search', replace_text = replace'\<rparr> =
                Inr (take p code' @ replace' @ drop (p + length search') code')"
    using apply_single_exact by blast
  from a b c d e show ?thesis by blast
qed

theorem normalized_path_rejoins_lines_witness:
  "\<not> str_contains ''a '' crlf_code \<and>
   first_window (splitlines crlf_code) (splitlines ''a '') = Some 0 \<and>
   apply_single_operation crlf_code \<lparr>search_text = ''a '', replace_text = ''c''\<rparr> =
     Inr (''  c'' @ NL @ ''b'') \<and>
   str_find ''a'' crlf_code = Some 2 \<and>
   apply_single_operation crlf_code \<lparr>search_text = ''a'', replace_text = ''c''\<rparr> =
     Inr (''  c'' @ [CHR 0x0D, CHR 0x0A] @ ''b'' @ NL)"
proof -
  have h1: "\<not> str_contains (search_text \<lparr>search_text = ''a '', replace_text = ''c''\<rparr>) crlf_code"
    by code_simp
  have h2: "first_window (splitlines crlf_code)
              (splitlines (search_text \<lparr>search_text = ''a '', replace_text = ''c''\<rparr>)) = Some 0"
    by code_simp
  have h3: "str_find ''a'' crlf_code = Some 2" by code_simp
  have e1: "apply_single_operation crlf_code \<lparr>search_text = ''a '', replace_text = ''c''\<rparr> =
     Inr (''  c'' @ NL @ ''b'')" by code_simp
  have e2: "take 2 crlf_code @ ''c'' @ drop (2 + length ''a'') crlf_code =
              ''  c'' @ [CHR 0x0D, CHR 0x0A] @ ''b'' @ NL" by code_simp
  from normalized_path_rejoins_lines[OF h1 h2, of "''a''" crlf_code 2 "''c''"] h1 h2 h3 e1 e2
  show ?thesis by auto
qed

section \<open>The matcher on literals and repetitions\<close>

lemma rx_match_lit:
  "rx_match (lit l) k caps s = (if prefix l s then k caps (drop (length l) s) else None)"
proof (induction l arbitrary: s)
  case Nil
  show ?case by simp
next
  case (Cons c cs)
  show ?case by (cases s) (simp_all add: Cons.IH)
qed

declare lit.simps [simp del]

lemma seqs_simps:
  "seqs [] = Eps" "seqs (r # rs) = Seq r (seqs rs)"
  by (simp_all add: seqs_def)

lemma rx_match_star_total:
  "\<forall>s'. k caps s' \<noteq> None \<Longrightarrow>
   rx_match (Star a) k caps s = k caps (dropWhile (atom_ok a) s)"
proof (induction s)
  case Nil
  show ?case by simp
next
  case (Cons c cs)
  from Cons.prems have "k caps (dropWhile (atom_ok a) cs) \<noteq> None" by blast
  with Cons.IH[OF Cons.prems] show ?case by (auto split: option.splits)
qed

lemma rx_match_star_SomeD:
  "rx_match (Star a) k caps s = Some x \<Longrightarrow>
   \<exists>n \<le> length (takeWhile (atom_ok a) s). k caps (drop n s) = Some x"
proof (induction s)
  case Nil
  then show ?case by simp
next
  case (Cons c cs)
  show ?case
  proof (cases "atom_ok a c")
    case False
    with Cons.prems show ?thesis by simp
  next
    case True
    show ?thesis
    proof (cases "rx_match (Star a) k caps cs")
      case None
      with True Cons.prems have "k caps (drop 0 (c # cs)) = Some x" by simp
      then show ?thesis by blast
    next
      case (Some y)
      with True Cons.prems have "rx_match (Star a) k caps cs = Some x" by simp
      from Cons.IH[OF this] obtain n
        where "n \<le> length (takeWhile (atom_ok a) cs)" "k caps (drop n cs) = Some x" by blast
      with True have "Suc n \<le> length (takeWhile (atom_ok a) (c # cs)) \<and>
                      k caps (drop (Suc n) (c # cs)) = Some x" by simp
      then show ?thesis by blast
    qed
  qed
qed

lemma rx_match_star_NoneD:
  "rx_match (Star a) k caps s = None \<Longrightarrow> n \<le> length (takeWhile (atom_ok a) s) \<Longrightarrow>
   k caps (drop n s) = None"
proof (induction s arbitrary: n)
  case Nil
  then show ?case by simp
next
  case (Cons c cs)
  show ?case
  proof (cases "atom_ok a c")
    case False
    with Cons.prems show ?thesis by simp
  next
    case True
    with Cons.prems(1) have r: "rx_match (Star a) k caps cs = None" and k: "k caps (c # cs) = None"
      by (auto split: option.splits)
    show ?thesis
    proof (cases n)
      case 0
      with k show ?thesis by simp
    next
      case (Suc m)
      with Cons.prems(2) True have "m \<le> length (takeWhile (atom_ok a) cs)" by simp
      from Cons.IH[OF r this] Suc show ?thesis by simp
    qed
  qed
qed

lemma rx_match_lazy_first:
  "m \<le> length s \<Longrightarrow> k caps (drop m s) = Some x \<Longrightarrow> \<forall>j<m. k caps (drop j s) = None \<Longrightarrow>
   rx_match (Lazy Dot) k caps s = Some x"
proof (induction s arbitrary: m)
  case Nil
  then show ?case by simp
next
  case (Cons c cs)
  show ?case
  proof (cases m)
    case 0
    with Cons.prems show ?thesis by simp
  next
    case (Suc m')
    with Cons.prems(3) have k0: "k caps (c # cs) = None" by force
    have "\<forall>j<m'. k caps (drop j cs) = None"
    proof (intro allI impI)
      fix j assume "j < m'"
      with Cons.prems(3)[rule_format, of "Suc j"] Suc show "k caps (drop j cs) = None" by simp
    qed
    with Cons.IH[of m'] Cons.prems(1,2) Suc have "rx_match (Lazy Dot) k caps cs = Some x"
      by simp
    with k0 show ?thesis by simp
  qed
qed

lemma rx_match_lazy_none:
  "\<forall>j\<le>length s. k caps (drop j s) = None \<Longrightarrow> rx_match (Lazy Dot) k caps s = None"
proof (induction s)
  case Nil
  then show ?case by simp
next
  case (Cons c cs)
  from Cons.prems have k0: "k caps (c # cs) = None" by force
  have "\<forall>j\<le>length cs. k caps (drop j cs) = None"
  proof (intro allI impI)
    fix j assume "j \<le> length cs"
    with Cons.prems[rule_format, of "Suc j"] show "k caps (drop j cs) = None" by simp
  qed
  with Cons.IH k0 show ?case by simp
qed

lemma rx_match_Seq: "rx_match (Seq r1 r2) k = rx_match r1 (rx_match r2 k)"
  by (intro ext) simp

lemma rx_match_Eps: "rx_match Eps k = k"
  by (intro ext) simp

lemma rx_match_seqs:
  "rx_match (seqs []) k = k" "rx_match (seqs (r # rs)) k = rx_match r (rx_match (seqs rs) k)"
  by (simp_all add: seqs_simps rx_match_Seq rx_match_Eps)

declare rx_match.simps [simp del]

section \<open>Deleting the fence markers\<close>

lemma not_space_backtick: "\<not> is_space (CHR 0x60)"
  by (simp add: is_space_def)

lemma is_space_newline: "is_space (CHR 0x0A)"
  by (simp add: is_space_def)

lemma optional_newline_after_spaces:
  assumes "t = [] \<or> \<not> is_space (hd t)"
  shows "rx_match (Opt (Atom (Chr (CHR 0x0A)))) matched caps t = Some (caps, t)"
proof (cases t)
  case Nil
  then show ?thesis by (simp add: rx_match.simps matched_def)
next
  case (Cons c cs)
  with assms is_space_newline have "c \<noteq> CHR 0x0A" by auto
  with Cons show ?thesis by (simp add: rx_match.simps matched_def)
qed

lemma spaces_then_optional_newline:
  "rx_match (seqs [Star Space, Opt (Atom (Chr (CHR 0x0A)))]) matched caps s =
     Some (caps, dropWhile is_space s)"
proof -
  define k where "k = rx_match (Opt (Atom (Chr (CHR 0x0A)))) matched"
  have total: "\<forall>s'. k caps s' \<noteq> None"
    unfolding k_def by (auto simp: rx_match.simps matched_def split: option.splits list.splits)
  have "rx_match (seqs [Star Space, Opt (Atom (Chr (CHR 0x0A)))]) matched caps s =
        rx_match (Star Space) k caps s"
    unfolding k_def by (simp only: rx_match_seqs)
  also have "\<dots> = k caps (dropWhile (atom_ok Space) s)"
    using total by (rule rx_match_star_total)
  also have "dropWhile (atom_ok Space) s = dropWhile is_space s"
    by (rule arg_cong[of _ _ "\<lambda>p. dropWhile p s"]) auto
  also have "k caps (dropWhile is_space s) = Some (caps, dropWhile is_space s)"
  proof -
    have "dropWhile is_space s = [] \<or> \<not> is_space (hd (dropWhile is_space s))"
      using hd_dropWhile[of is_space s] by blast
    from optional_newline_after_spaces[OF this, of caps] show ?thesis
      unfolding k_def .
  qed
  finally show ?thesis .
qed

lemma optional_tag_total:
  assumes "\<And>t. k caps t \<noteq> None"
  shows "rx_match (Opt (Alt (lit ''rust'') (Alt (lit ''verus'') (lit ''python'')))) k caps s =
           k caps (drop_fence_tag s)"
  unfolding rx_match.simps(4,5) rx_match_lit drop_fence_tag_def
  by (simp add: assms eval_nat_numeral split: option.splits)

lemma fence_first_alternative:
  "rx_match (seqs [Opt (Alt (lit ''rust'') (Alt (lit ''verus'') (lit ''python''))),
                   Star Space, Opt (Atom (Chr (CHR 0x0A)))]) matched caps s =
     Some (caps, dropWhile is_space (drop_fence_tag s))"
proof -
  define k where "k = rx_match (seqs [Star Space, Opt (Atom (Chr (CHR 0x0A)))]) matched"
  have k: "k caps' s' = Some (caps', dropWhile is_space s')" for caps' s'
    unfolding k_def by (rule spaces_then_optional_newline)
  have "rx_match (seqs [Opt (Alt (lit ''rust'') (Alt (lit ''verus'') (lit ''python''))),
                   Star Space, Opt (Atom (Chr (CHR 0x0A)))]) matched caps s =
        rx_match (Opt (Alt (lit ''rust'') (Alt (lit ''verus'') (lit ''python'')))) k caps s"
    unfolding k_def by (simp only: rx_match_seqs)
  also have "\<dots> = k caps (drop_fence_tag s)"
    by (rule optional_tag_total) (simp add: k)
  finally show ?thesis by (simp add: k)
qed

lemma fence_match:
  "rx_match fence_rx matched [] s =
     (if prefix ''```'' s then Some ([], dropWhile is_space (drop_fence_tag (drop 3 s)))
      else None)"
proof -
  let ?tag = "Opt (Alt (lit ''rust'') (Alt (lit ''verus'') (lit ''python'')))"
  have 1: "rx_match (seqs [lit ''```'', ?tag, Star Space, Opt (Atom (Chr (CHR 0x0A)))])
             matched [] s =
           (if prefix ''```'' s then Some ([], dropWhile is_space (drop_fence_tag (drop 3 s)))
            else None)"
    unfolding rx_match_seqs(2)[of "lit ''```''"] rx_match_lit fence_first_alternative
    by (simp add: eval_nat_numeral)
  have 2: "rx_match (seqs [lit ''```'', Star Space, Eol]) matched [] s = None"
    if "\<not> prefix ''```'' s"
    unfolding rx_match_seqs(2)[of "lit ''```''"] rx_match_lit using that by simp
  show ?thesis
    unfolding fence_rx_def rx_match.simps(4) 1 using 2 by simp
qed

lemma length_drop_fence_tag: "length (drop_fence_tag t) \<le> length t"
  by (simp add: drop_fence_tag_def)

lemma fence_rest_shorter:
  assumes "prefix ''```'' s"
  shows "length (dropWhile is_space (drop_fence_tag (drop 3 s))) < length s"
proof -
  from assms have "3 \<le> length s" by (auto simp: prefix_def)
  moreover have "length (dropWhile is_space (drop_fence_tag (drop 3 s))) \<le> length (drop 3 s)"
    using length_dropWhile_le[of is_space "drop_fence_tag (drop 3 s)"]
      length_drop_fence_tag[of "drop 3 s"] by linarith
  ultimately show ?thesis by simp
qed

lemma strip_fences_step:
  "rx_sub_empty fence_rx s =
     (if prefix ''```'' s
      then rx_sub_empty fence_rx (dropWhile is_space (drop_fence_tag (drop 3 s)))
      else (case s of [] \<Rightarrow> [] | c # cs \<Rightarrow> c # rx_sub_empty fence_rx cs))"
  by (subst rx_sub_empty.simps) (simp add: fence_match fence_rest_shorter)


lemma strip_fences_keep:
  assumes "\<not> prefix ''```'' (c # cs)"
  shows "rx_sub_empty fence_rx (c # cs) = c # rx_sub_empty fence_rx cs"
proof -
  have "rx_sub_empty fence_rx (c # cs) =
          (case c # cs of [] \<Rightarrow> [] | c # cs \<Rightarrow> c # rx_sub_empty fence_rx cs)"
    by (subst strip_fences_step) (rule if_not_P[OF assms])
  then show ?thesis by simp
qed

lemma strip_fences_nil: "rx_sub_empty fence_rx [] = []"
  by (subst strip_fences_step) simp






section \<open>What a match captures\<close>

lemma rx_match_lazy_SomeD:
  "rx_match (Lazy a) k caps s = Some x \<Longrightarrow> \<exists>n \<le> length s. k caps (drop n s) = Some x"
proof (induction s)
  case Nil
  then show ?case by (auto simp: rx_match.simps split: option.splits)
next
  case (Cons c cs)
  show ?case
  proof (cases "k caps (c # cs)")
    case (Some y)
    with Cons.prems have "k caps (drop 0 (c # cs)) = Some x" by (simp add: rx_match.simps)
    then show ?thesis by blast
  next
    case None
    with Cons.prems have "rx_match (Lazy a) k caps cs = Some x"
      by (simp add: rx_match.simps split: if_splits)
    from Cons.IH[OF this] obtain n where "n \<le> length cs" "k caps (drop n cs) = Some x" by blast
    then have "Suc n \<le> length (c # cs) \<and> k caps (drop (Suc n) (c # cs)) = Some x" by simp
    then show ?thesis by blast
  qed
qed

lemma extends_refl: "extends caps s caps s"
  by (simp add: extends_def)

lemma extends_trans:
  assumes "extends caps s caps1 s1" "extends caps1 s1 caps2 s2"
  shows "extends caps s caps2 s2"
proof -
  from assms obtain n1 n2 where
    1: "suffix s1 s" "caps1 = caps @ n1" "\<forall>c\<in>set n1. sublist c s" and
    2: "suffix s2 s1" "caps2 = caps1 @ n2" "\<forall>c\<in>set n2. sublist c s1"
    by (auto simp: extends_def)
  from 1(1) have "sublist s1 s" by (rule suffix_imp_sublist)
  with 2(3) have "\<forall>c\<in>set n2. sublist c s" by (meson sublist_order.order.trans)
  with 1 2 have "suffix s2 s" "caps2 = caps @ (n1 @ n2)" "\<forall>c\<in>set (n1 @ n2). sublist c s"
    by (auto intro: suffix_order.trans)
  then show ?thesis unfolding extends_def by blast
qed

lemma extends_drop: "extends caps s caps (drop n s)"
  by (simp add: extends_def suffix_drop)

lemma rx_match_extends:
  "rx_match r k caps s = Some x \<Longrightarrow>
   \<exists>caps' s'. k caps' s' = Some x \<and> extends caps s caps' s'"
proof (induction r arbitrary: k caps s x)
  case (Atom a)
  then obtain c cs where s: "s = c # cs" and k: "k caps cs = Some x"
    by (auto simp: rx_match.simps split: list.splits if_splits)
  have "extends caps s caps cs" using extends_drop[of caps s 1] s by simp
  with k show ?case by blast
next
  case Eps
  then show ?case using extends_refl by (auto simp: rx_match.simps)
next
  case (Seq r1 r2)
  from Seq.prems have "rx_match r1 (rx_match r2 k) caps s = Some x"
    by (simp add: rx_match_Seq)
  from Seq.IH(1)[OF this] obtain caps1 s1
    where 1: "rx_match r2 k caps1 s1 = Some x" "extends caps s caps1 s1" by blast
  from Seq.IH(2)[OF 1(1)] obtain caps2 s2
    where 2: "k caps2 s2 = Some x" "extends caps1 s1 caps2 s2" by blast
  from 1(2) 2 extends_trans show ?case by blast
next
  case (Alt r1 r2)
  from Alt.prems have "rx_match r1 k caps s = Some x \<or> rx_match r2 k caps s = Some x"
    by (auto simp: rx_match.simps split: option.splits)
  with Alt.IH show ?case by blast
next
  case (Opt r)
  from Opt.prems have "rx_match r k caps s = Some x \<or> k caps s = Some x"
    by (auto simp: rx_match.simps split: option.splits)
  with Opt.IH extends_refl show ?case by blast
next
  case (Star a)
  from rx_match_star_SomeD[OF Star] extends_drop show ?case by blast
next
  case (Lazy a)
  from rx_match_lazy_SomeD[OF Lazy] extends_drop show ?case by blast
next
  case (Group r)
  let ?k = "\<lambda>caps' s'. k (caps' @ [take (length s - length s') s]) s'"
  from Group.prems have "rx_match r ?k caps s = Some x" by (simp add: rx_match.simps)
  from Group.IH[OF this] obtain caps1 s1
    where 1: "k (caps1 @ [take (length s - length s1) s]) s1 = Some x" "extends caps s caps1 s1"
    by blast
  have "sublist (take (length s - length s1) s) s"
    using take_is_prefix by (rule prefix_imp_sublist)
  with 1(2) have "extends caps s (caps1 @ [take (length s - length s1) s]) s1"
    by (auto simp: extends_def)
  with 1(1) show ?case by blast
next
  case Eol
  then show ?case using extends_refl by (auto simp: rx_match.simps split: if_splits)
qed

lemma rx_match_matched:
  assumes "rx_match r matched [] s = Some (caps, rest)"
  shows "suffix rest s \<and> (\<forall>c\<in>set caps. sublist c s)"
proof -
  from rx_match_extends[OF assms] obtain caps' s'
    where "matched caps' s' = Some (caps, rest)" "extends [] s caps' s'" by blast
  then show ?thesis by (auto simp: matched_def extends_def)
qed




section \<open>The pattern of an edit block\<close>
















section \<open>Fence markers inside an edit block\<close>

lemma strip_fences_plain_prefix:
  "CHR 0x60 \<notin> set u \<Longrightarrow> rx_sub_empty fence_rx (u @ v) = u @ rx_sub_empty fence_rx v"
proof (induction u)
  case Nil
  show ?case by simp
next
  case (Cons c cs)
  then have "\<not> prefix ''```'' (c # (cs @ v))" by auto
  then have "rx_sub_empty fence_rx (c # (cs @ v)) = c # rx_sub_empty fence_rx (cs @ v)"
    by (rule strip_fences_keep)
  with Cons show ?case by simp
qed

lemma strip_fences_plain:
  "CHR 0x60 \<notin> set u \<Longrightarrow> rx_sub_empty fence_rx u = u"
  using strip_fences_plain_prefix[of u "[]"] by (simp add: strip_fences_nil)













section \<open>The parser and the fence markers\<close>




section \<open>Operations that depend on each other\<close>

lemma str_nat_1: "str_nat (Suc 0) = ''1''"
  by (subst str_nat.simps) simp

lemma str_nat_2: "str_nat (Suc (Suc 0)) = ''2''"
  by (subst str_nat.simps) simp

lemma format_validation_failure:
  assumes "parse_search_replace_response response = pre @ op # post"
    and "\<forall>x\<in>set pre. resolvable code (search_text x)"
    and "\<not> resolvable code (search_text op)"
  shows "apply_search_replace_format code response =
           (code, False,
            ''Invalid SEARCH/REPLACE operations: '' @ not_found_message (length pre) op)"
proof -
  have "validate_operations code (pre @ op # post) =
          Inr (False, not_found_message (length pre) op)"
    using validate_from_first_failure[OF assms(2,3), of 0 post]
    by (simp add: validate_operations_def)
  then show ?thesis
    by (simp add: apply_search_replace_format_eq apply_search_replace_format_body_def assms(1))
qed

text \<open>
  Claim C1 (two operations of which the second finds its \<^verbatim>\<open>search_text\<close> only in the text
  that the first one produces), as amended: the applicator, run on the two operations in
  that order, applies both, the second one to the result of the first. The orchestrator
  validates every operation against the original text before it applies any, so it fails
  validation in both orders, at the dependent operation, and returns the original text with
  \<^verbatim>\<open>False\<close>.
\<close>

theorem dependent_operations_fail_validation:
  assumes "parse_search_replace_response forward = [op1, op2]"
    and "parse_search_replace_response backward = [op2, op1]"
    and "resolvable original (search_text op1)"
    and "\<not> resolvable original (search_text op2)"
    and "apply_single_operation original op1 = Inr text1"
    and "str_find (search_text op2) text1 = Some p"
  shows "apply_search_replace_operations original [op1, op2] =
           Inr (take p text1 @ replace_text op2 @ drop (p + length (search_text op2)) text1) \<and>
         apply_search_replace_format original forward =
           (original, False,
            ''Invalid SEARCH/REPLACE operations: SEARCH block 2 not found: '' @
            [CHR 0x27] @ take 50 (search_text op2) @ ''...'' @ [CHR 0x27]) \<and>
         apply_search_replace_format original backward =
           (original, False,
            ''Invalid SEARCH/REPLACE operations: SEARCH block 1 not found: '' @
            [CHR 0x27] @ take 50 (search_text op2) @ ''...'' @ [CHR 0x27])"
proof -
  have "apply_single_operation text1 op2 =
          Inr (take p text1 @ replace_text op2 @ drop (p + length (search_text op2)) text1)"
    using apply_single_exact[OF assms(6), of "replace_text op2"] by (cases op2) simp
  with assms(5) have a: "apply_search_replace_operations original [op1, op2] =
           Inr (take p text1 @ replace_text op2 @ drop (p + length (search_text op2)) text1)"
    by simp
  have f: "apply_search_replace_format original forward =
             (original, False,
              ''Invalid SEARCH/REPLACE operations: '' @ not_found_message (length [op1]) op2)"
    by (rule format_validation_failure[where post = "[]"]) (simp_all add: assms)
  have b: "apply_search_replace_format original backward =
             (original, False,
              ''Invalid SEARCH/REPLACE operations: '' @ not_found_message (length ([] :: SearchReplaceOperation list)) op2)"
    by (rule format_validation_failure[where post = "[op1]"]) (simp_all add: assms)
  from a f b show ?thesis
    by (simp add: not_found_message_def str_nat_1 str_nat_2)
qed

theorem dependent_operations_fail_validation_witness:
  "apply_search_replace_operations ''a''
     [\<lparr>search_text = ''a'', replace_text = ''b''\<rparr>, \<lparr>search_text = ''b'', replace_text = ''c''\<rparr>] =
     Inr ''c'' \<and>
   apply_search_replace_format ''a'' dependent_forward =
     (''a'', False,
      ''Invalid SEARCH/REPLACE operations: SEARCH block 2 not found: '' @
      [CHR 0x27] @ ''b...'' @ [CHR 0x27]) \<and>
   apply_search_replace_format ''a'' dependent_backward =
     (''a'', False,
      ''Invalid SEARCH/REPLACE operations: SEARCH block 1 not found: '' @
      [CHR 0x27] @ ''b...'' @ [CHR 0x27])"
proof -
  let ?op1 = "\<lparr>search_text = ''a'', replace_text = ''b''\<rparr>"
  let ?op2 = "\<lparr>search_text = ''b'', replace_text = ''c''\<rparr>"
  have h1: "parse_search_replace_response dependent_forward = [?op1, ?op2]" by code_simp
  have h2: "parse_search_replace_response dependent_backward = [?op2, ?op1]" by code_simp
  have h3: "resolvable ''a'' (search_text ?op1)" by code_simp
  have h4: "\<not> resolvable ''a'' (search_text ?op2)" by code_simp
  have h5: "apply_single_operation ''a'' ?op1 = Inr ''b''" by code_simp
  have h6: "str_find (search_text ?op2) ''b'' = Some 0" by code_simp
  from dependent_operations_fail_validation[OF h1 h2 h3 h4 h5 h6] show ?thesis by simp
qed

text \<open>
  The claim as stated fails in the forward order: the second operation's \<^verbatim>\<open>search_text\<close>
  \<^verbatim>\<open>b\<close> is not in the original text \<^verbatim>\<open>a\<close> and is in the text \<^verbatim>\<open>b\<close> that the first operation
  produces, and the orchestrator does not apply the two operations: it reports the second
  block as not found.
\<close>

theorem dependent_operations_counterexample:
  "parse_search_replace_response dependent_forward =
     [\<lparr>search_text = ''a'', replace_text = ''b''\<rparr>, \<lparr>search_text = ''b'', replace_text = ''c''\<rparr>] \<and>
   \<not> str_contains ''b'' ''a'' \<and>
   apply_single_operation ''a'' \<lparr>search_text = ''a'', replace_text = ''b''\<rparr> = Inr ''b'' \<and>
   str_contains ''b'' ''b'' \<and>
   apply_search_replace_format ''a'' dependent_forward =
     (''a'', False,
      ''Invalid SEARCH/REPLACE operations: SEARCH block 2 not found: '' @
      [CHR 0x27] @ ''b...'' @ [CHR 0x27])"
  by code_simp

section \<open>The fallback pattern for code blocks\<close>

lemma dropWhile_drop_within:
  "n \<le> length (takeWhile P xs) \<Longrightarrow> dropWhile P (drop n xs) = dropWhile P xs"
proof (induction xs arbitrary: n)
  case Nil
  then show ?case by simp
next
  case (Cons x xs)
  then show ?case by (cases n) (auto split: if_splits)
qed

lemma dropWhile_head: "dropWhile P xs = c # t \<Longrightarrow> \<not> P c"
  by (induction xs) (auto split: if_splits)

lemma strip_drop_leading_space:
  "n \<le> length (takeWhile is_space body) \<Longrightarrow> strip (drop n body) = strip body"
  by (simp add: strip_def lstrip_def dropWhile_drop_within)

lemma prefix_of_append_long:
  "prefix p (x @ r) \<Longrightarrow> length p \<le> length x \<Longrightarrow> prefix p x"
  using prefix_length_prefix[of p "x @ r" x] by simp

lemma fence_first_at:
  assumes "str_find ''```'' (b @ ''```'') = Some (length b)" and "j < length b"
  shows "\<not> prefix ''```'' (drop j (b @ ''```'' @ rest))"
proof
  assume p: "prefix ''```'' (drop j (b @ ''```'' @ rest))"
  have "drop j (b @ ''```'' @ rest) = drop j (b @ ''```'') @ rest" using assms(2) by simp
  moreover have "length ''```'' \<le> length (drop j (b @ ''```''))" using assms(2) by simp
  ultimately have "prefix ''```'' (drop j (b @ ''```''))"
    using p prefix_of_append_long by metis
  with str_find_SomeD[OF assms(1)] assms(2) show False by blast
qed

lemma group_until_fence:
  assumes "\<forall>j<length b. \<not> prefix ''```'' (drop j (b @ ''```'' @ rest))"
  shows "rx_match (Group (Lazy Dot)) (rx_match (lit ''```'') matched) caps (b @ ''```'' @ rest) =
           Some (caps @ [b], rest)"
proof -
  let ?s = "b @ ''```'' @ rest"
  define k where
    "k = (\<lambda>caps' s'. rx_match (lit ''```'') matched (caps' @ [take (length ?s - length s') ?s]) s')"
  have at: "k caps (drop (length b) ?s) = Some (caps @ [b], rest)"
    unfolding k_def rx_match_lit by (simp add: matched_def)
  have before: "\<forall>j<length b. k caps (drop j ?s) = None"
    using assms unfolding k_def rx_match_lit by simp
  have "rx_match (Lazy Dot) k caps ?s = Some (caps @ [b], rest)"
    using rx_match_lazy_first[of "length b" ?s k caps "(caps @ [b], rest)"] at before
    by simp
  then show ?thesis unfolding k_def by (simp add: rx_match.simps(8))
qed

lemma newline_then_group:
  assumes "\<forall>j<length b. \<not> prefix ''```'' (drop j (b @ ''```'' @ rest))"
  shows "rx_match (seqs [Atom (Chr (CHR 0x0A)), Group (Lazy Dot), lit ''```'']) matched caps
           (CHR 0x0A # b @ ''```'' @ rest) = Some (caps @ [b], rest)"
  unfolding rx_match_seqs using group_until_fence[OF assms, of caps]
  by (simp add: rx_match.simps(1))

lemma newline_then_group_SomeD:
  assumes "rx_match (seqs [Atom (Chr (CHR 0x0A)), Group (Lazy Dot), lit ''```'']) matched caps s
             = Some x"
  shows "\<exists>t. s = CHR 0x0A # t"
  using assms unfolding rx_match_seqs
  by (cases s) (auto simp: rx_match.simps(1) split: if_splits)

lemma takeWhile_space_before_fence:
  "takeWhile is_space (y @ ''```'' @ rest) = takeWhile is_space y"
proof (cases "\<forall>c\<in>set y. is_space c")
  case True
  then have a: "takeWhile is_space (y @ ''```'' @ rest) = y @ takeWhile is_space (''```'' @ rest)"
    by (simp add: takeWhile_append2)
  have b: "takeWhile is_space (''```'' @ rest) = []"
    by (simp add: not_space_backtick)
  have c: "takeWhile is_space y = y"
    using True by (simp add: takeWhile_eq_all_conv)
  show ?thesis unfolding a b c by simp
next
  case False
  then show ?thesis by (auto simp: takeWhile_append1)
qed

lemma no_fence_in_opening:
  assumes ws: "\<forall>c\<in>set ws. is_space c"
    and cl: "str_find ''```'' (body @ ''```'') = Some (length body)"
    and i: "i < length (ws @ CHR 0x0A # body)"
  shows "\<not> prefix ''```'' (drop i ((ws @ CHR 0x0A # body) @ ''```'' @ rest))"
proof (cases "i < length (ws @ [CHR 0x0A])")
  case True
  then have "drop i (ws @ [CHR 0x0A]) \<noteq> []" by simp
  then obtain c cs where d: "drop i (ws @ [CHR 0x0A]) = c # cs"
    by (cases "drop i (ws @ [CHR 0x0A])") auto
  then have "c \<in> set (ws @ [CHR 0x0A])" by (metis in_set_dropD list.set_intros(1))
  with ws is_space_newline have "is_space c" by auto
  with not_space_backtick have c: "c \<noteq> CHR 0x60" by blast
  have "(ws @ CHR 0x0A # body) @ ''```'' @ rest = (ws @ [CHR 0x0A]) @ body @ ''```'' @ rest"
    by simp
  then have "drop i ((ws @ CHR 0x0A # body) @ ''```'' @ rest) = c # cs @ body @ ''```'' @ rest"
    using d True by (simp del: append_assoc append.simps)
  with c show ?thesis by simp
next
  case False
  define q where "q = i - length (ws @ [CHR 0x0A])"
  from False i have q: "q < length body" and iq: "i = length (ws @ [CHR 0x0A]) + q"
    by (simp_all add: q_def)
  have "(ws @ CHR 0x0A # body) @ ''```'' @ rest = (ws @ [CHR 0x0A]) @ body @ ''```'' @ rest"
    by simp
  then have "drop i ((ws @ CHR 0x0A # body) @ ''```'' @ rest) = drop q (body @ ''```'' @ rest)"
    unfolding iq by (simp del: append_assoc append.simps)
  with fence_first_at[OF cl q, of rest] show ?thesis by simp
qed

lemma drop_append_within: "m \<le> length xs \<Longrightarrow> drop m (xs @ ys) = drop m xs @ ys"
  by simp

lemma spaces_newline_group:
  assumes ws: "\<forall>c\<in>set ws. is_space c"
    and cl: "str_find ''```'' (body @ ''```'') = Some (length body)"
  shows "\<exists>g. rx_match (seqs [Star Space, Atom (Chr (CHR 0x0A)), Group (Lazy Dot), lit ''```''])
               matched caps (ws @ CHR 0x0A # body @ ''```'' @ rest) = Some (caps @ [g], rest) \<and>
             strip g = strip body"
proof -
  define Z where "Z = ws @ CHR 0x0A # body"
  define F where "F = ''```'' @ rest"
  define k where
    "k = rx_match (seqs [Atom (Chr (CHR 0x0A)), Group (Lazy Dot), lit ''```'']) matched"
  have whole: "ws @ CHR 0x0A # body @ ''```'' @ rest = Z @ F"
    by (simp add: Z_def F_def)
  have sp: "atom_ok Space = is_space" by (intro ext) simp
  have star: "rx_match (seqs [Star Space, Atom (Chr (CHR 0x0A)), Group (Lazy Dot), lit ''```''])
               matched caps (Z @ F) = rx_match (Star Space) k caps (Z @ F)"
    unfolding k_def by (simp only: rx_match_seqs)
  have tw: "takeWhile is_space (Z @ F) = takeWhile is_space Z"
    unfolding F_def by (rule takeWhile_space_before_fence)
  have tw0: "length ws < length (takeWhile is_space Z)"
    unfolding Z_def using ws by (simp add: takeWhile_append2 is_space_newline)
  have nofence: "\<not> prefix ''```'' (drop i (Z @ F))" if "i < length Z" for i
    using no_fence_in_opening[OF ws cl that[unfolded Z_def], of rest]
    unfolding Z_def F_def .
  have at_ws: "k caps (drop (length ws) (Z @ F)) = Some (caps @ [body], rest)"
  proof -
    have "\<forall>j<length body. \<not> prefix ''```'' (drop j (body @ ''```'' @ rest))"
      using fence_first_at[OF cl] by blast
    from newline_then_group[OF this, of caps]
    show ?thesis unfolding k_def Z_def F_def by simp
  qed
  have "rx_match (Star Space) k caps (Z @ F) \<noteq> None"
  proof
    assume "rx_match (Star Space) k caps (Z @ F) = None"
    moreover have "length ws \<le> length (takeWhile (atom_ok Space) (Z @ F))"
      unfolding sp tw using tw0 by simp
    ultimately have "k caps (drop (length ws) (Z @ F)) = None" by (rule rx_match_star_NoneD)
    with at_ws show False by simp
  qed
  then obtain x where x: "rx_match (Star Space) k caps (Z @ F) = Some x" by blast
  from rx_match_star_SomeD[OF x] obtain n
    where n: "n \<le> length (takeWhile is_space Z)" "k caps (drop n (Z @ F)) = Some x"
    unfolding sp tw by blast
  from newline_then_group_SomeD[OF n(2)[unfolded k_def]] obtain t
    where t: "drop n (Z @ F) = CHR 0x0A # t" by blast
  have n_lt: "n < length (takeWhile is_space Z)"
  proof (rule ccontr)
    assume "\<not> n < length (takeWhile is_space Z)"
    with n(1) have "n = length (takeWhile is_space (Z @ F))" unfolding tw by simp
    then have "drop n (Z @ F) = dropWhile is_space (Z @ F)" by (simp only: dropWhile_eq_drop)
    with t have "dropWhile is_space (Z @ F) = CHR 0x0A # t" by simp
    from dropWhile_head[OF this] is_space_newline show False by blast
  qed
  then have n0: "Suc n \<le> length Z"
    using length_takeWhile_le[of is_space Z] by linarith
  define u where "u = drop (Suc n) Z"
  have "drop (Suc n) (Z @ F) = tl (drop n (Z @ F))" by (simp only: drop_Suc tl_drop)
  with t have "t = drop (Suc n) (Z @ F)" by simp
  also have "\<dots> = u @ F" unfolding u_def using n0 by (rule drop_append_within)
  finally have t_eq: "t = u @ F" .
  have until: "\<forall>j<length u. \<not> prefix ''```'' (drop j (u @ ''```'' @ rest))"
  proof (intro allI impI)
    fix j assume j: "j < length u"
    then have i: "Suc n + j < length Z" unfolding u_def by simp
    have "drop j (u @ F) = drop j (drop (Suc n) (Z @ F))"
      unfolding u_def using n0 by (simp only: drop_append_within)
    also have "\<dots> = drop (Suc n + j) (Z @ F)" by (simp only: drop_drop add.commute)
    finally have "drop j (u @ F) = drop (Suc n + j) (Z @ F)" .
    with nofence[OF i] show "\<not> prefix ''```'' (drop j (u @ ''```'' @ rest))"
      unfolding F_def by simp
  qed
  from newline_then_group[OF until, of caps] n(2) t t_eq
  have xv: "x = (caps @ [u], rest)" unfolding k_def F_def by simp
  have "lstrip u = dropWhile is_space Z"
    unfolding lstrip_def u_def using n_lt by (intro dropWhile_drop_within) simp
  also have "\<dots> = dropWhile is_space body"
  proof -
    have "dropWhile is_space ((ws @ [CHR 0x0A]) @ body) = dropWhile is_space body"
      by (rule dropWhile_append2) (use ws is_space_newline in auto)
    then show ?thesis unfolding Z_def by simp
  qed
  finally have "strip u = strip body" by (simp add: strip_def lstrip_def)
  with x xv star whole show ?thesis by auto
qed

lemma optional_rust_tag:
  assumes "tag \<in> {[], ''rust'', ''verus''}" and "is_space c" and "k caps (c # t) = Some v"
  shows "rx_match (Opt (Alt (lit ''rust'') (lit ''verus''))) k caps (tag @ c # t) = Some v"
proof -
  have "\<not> is_space (CHR ''r'')" "\<not> is_space (CHR ''v'')" by (simp_all add: is_space_def)
  with assms(2) have c: "c \<noteq> CHR ''r''" "c \<noteq> CHR ''v''" by blast+
  from assms(1) consider "tag = []" | "tag = ''rust''" | "tag = ''verus''" by blast
  then show ?thesis
  proof cases
    case 1
    then show ?thesis
      unfolding rx_match.simps(4,5) rx_match_lit using assms(3) c by simp
  next
    case 2
    then show ?thesis
      unfolding rx_match.simps(4,5) rx_match_lit using assms(3) by simp
  next
    case 3
    then show ?thesis
      unfolding rx_match.simps(4,5) rx_match_lit using assms(3) by simp
  qed
qed

lemma code_block_match:
  assumes "tag \<in> {[], ''rust'', ''verus''}"
    and ws: "\<forall>c\<in>set ws. is_space c"
    and cl: "str_find ''```'' (body @ ''```'') = Some (length body)"
  shows "\<exists>g. rx_match code_block_rx matched []
               (''```'' @ tag @ ws @ NL @ body @ ''```'' @ rest) = Some ([g], rest) \<and>
             strip g = strip body"
proof -
  define k where
    "k = rx_match (seqs [Star Space, Atom (Chr (CHR 0x0A)), Group (Lazy Dot), lit ''```'']) matched"
  define W where "W = ws @ CHR 0x0A # body @ ''```'' @ rest"
  from spaces_newline_group[OF ws cl, of "[]" rest] obtain g
    where g: "k [] W = Some ([g], rest)" "strip g = strip body"
    unfolding k_def W_def by auto
  obtain c t where W: "W = c # t" and c: "is_space c"
  proof (cases ws)
    case Nil
    then have "W = CHR 0x0A # body @ ''```'' @ rest" by (simp add: W_def)
    with is_space_newline that show ?thesis by blast
  next
    case (Cons d ds)
    then have "W = d # ds @ CHR 0x0A # body @ ''```'' @ rest" by (simp add: W_def)
    moreover from Cons ws have "is_space d" by simp
    ultimately show ?thesis using that by blast
  qed
  have "rx_match code_block_rx matched [] (''```'' @ tag @ ws @ NL @ body @ ''```'' @ rest) =
        rx_match (lit ''```'') (rx_match (Opt (Alt (lit ''rust'') (lit ''verus''))) k) []
          (''```'' @ tag @ W)"
    unfolding code_block_rx_def k_def W_def by (simp only: rx_match_seqs) simp
  also have "\<dots> = rx_match (Opt (Alt (lit ''rust'') (lit ''verus''))) k [] (tag @ c # t)"
    unfolding rx_match_lit W by simp
  also have "\<dots> = Some ([g], rest)"
    using assms(1) c g(1)[unfolded W] by (rule optional_rust_tag)
  finally show ?thesis using g(2) by blast
qed

lemma code_block_needs_fence:
  "\<not> prefix ''```'' s \<Longrightarrow> rx_match code_block_rx matched [] s = None"
  unfolding code_block_rx_def rx_match_seqs(2)[of "lit ''```''"] rx_match_lit by simp

lemma code_block_not_after_backquote:
  assumes "prefix ''```'' s" and "drop 3 s = CHR 0x60 # t"
  shows "rx_match code_block_rx matched [] s = None"
proof -
  define k where
    "k = rx_match (seqs [Atom (Chr (CHR 0x0A)), Group (Lazy Dot), lit ''```'']) matched"
  have k: "k caps (CHR 0x60 # t) = None" for caps
    unfolding k_def rx_match_seqs by (simp add: rx_match.simps(1))
  have star: "rx_match (Star Space) k caps (CHR 0x60 # t) = None" for caps
    by (simp add: rx_match.simps(6) not_space_backtick k)
  have "rx_match code_block_rx matched [] s =
        rx_match (lit ''```'')
          (rx_match (Opt (Alt (lit ''rust'') (lit ''verus''))) (rx_match (Star Space) k)) [] s"
    unfolding code_block_rx_def k_def by (simp only: rx_match_seqs)
  also have "\<dots> = rx_match (Opt (Alt (lit ''rust'') (lit ''verus''))) (rx_match (Star Space) k) []
                     (CHR 0x60 # t)"
    unfolding rx_match_lit using assms by (simp add: eval_nat_numeral)
  also have "\<dots> = None"
    unfolding rx_match.simps(4,5) rx_match_lit by (simp add: star)
  finally show ?thesis .
qed

lemma fence_straddle:
  assumes "p \<noteq> []" and "\<not> sublist ''```'' p" and "prefix ''```'' (p @ ''```'' @ z)"
  shows "\<exists>t. drop 3 (p @ ''```'' @ z) = CHR 0x60 # t"
proof -
  have "length p < 3"
  proof (rule ccontr)
    assume "\<not> length p < 3"
    then have "length ''```'' \<le> length p" by simp
    with assms(3) have "prefix ''```'' p" by (rule prefix_of_append_long)
    then have "sublist ''```'' p" by (rule prefix_imp_sublist)
    with assms(2) show False by blast
  qed
  with assms(1) consider a where "p = [a]" | a b where "p = [a, b]"
    by (cases p; cases "tl p"; cases "tl (tl p)") auto
  then show ?thesis by cases auto
qed

lemma finditer_no_match_here:
  "rx_match r matched [] (c # cs) = None \<Longrightarrow> rx_finditer r (c # cs) = rx_finditer r cs"
  by (subst rx_finditer.simps) simp

lemma finditer_skip_before_fence:
  "\<not> sublist ''```'' pre \<Longrightarrow>
   rx_finditer code_block_rx (pre @ ''```'' @ z) = rx_finditer code_block_rx (''```'' @ z)"
proof (induction pre)
  case Nil
  show ?case by simp
next
  case (Cons c pre)
  have none: "rx_match code_block_rx matched [] ((c # pre) @ ''```'' @ z) = None"
  proof (cases "prefix ''```'' ((c # pre) @ ''```'' @ z)")
    case False
    then show ?thesis by (rule code_block_needs_fence)
  next
    case True
    from fence_straddle[OF _ Cons.prems True] obtain t
      where "drop 3 ((c # pre) @ ''```'' @ z) = CHR 0x60 # t" by blast
    with True show ?thesis by (rule code_block_not_after_backquote)
  qed
  from none have "rx_match code_block_rx matched [] (c # (pre @ ''```'' @ z)) = None"
    by simp
  then have "rx_finditer code_block_rx (c # (pre @ ''```'' @ z)) =
          rx_finditer code_block_rx (pre @ ''```'' @ z)"
    by (rule finditer_no_match_here)
  then have "rx_finditer code_block_rx ((c # pre) @ ''```'' @ z) =
          rx_finditer code_block_rx (pre @ ''```'' @ z)"
    by simp
  moreover from Cons.prems have "\<not> sublist ''```'' pre"
    by (simp add: sublist_Cons_right)
  ultimately show ?case using Cons.IH by simp
qed

lemma findall_first_block:
  assumes "\<not> sublist ''```'' pre"
    and "tag \<in> {[], ''rust'', ''verus''}"
    and "\<forall>c\<in>set ws. is_space c"
    and "str_find ''```'' (body @ ''```'') = Some (length body)"
  shows "\<exists>g gs. rx_findall code_block_rx
                   (pre @ ''```'' @ tag @ ws @ NL @ body @ ''```'' @ rest) = g # gs \<and>
               strip g = strip body"
proof -
  let ?X = "''```'' @ tag @ ws @ NL @ body @ ''```'' @ rest"
  from code_block_match[OF assms(2,3,4), of rest] obtain g
    where g: "rx_match code_block_rx matched [] ?X = Some ([g], rest)" "strip g = strip body"
    by blast
  have "length rest < length ?X" by simp
  with g(1) have "rx_finditer code_block_rx ?X = [g] # rx_finditer code_block_rx rest"
    by (subst rx_finditer.simps) simp
  with finditer_skip_before_fence[OF assms(1), of "tag @ ws @ NL @ body @ ''```'' @ rest"]
  have "rx_findall code_block_rx (pre @ ?X) =
          g # map (\<lambda>caps. match_group caps 1) (rx_finditer code_block_rx rest)"
    by (simp add: rx_findall_def match_group_def)
  with g(2) show ?thesis by blast
qed

text \<open>
  Claim C2 (the fallback when the parser finds no edit operation), as amended: when the
  response holds, with no \<^verbatim>\<open>```\<close> before it, a block that opens with \<^verbatim>\<open>```\<close>, a tag \<^verbatim>\<open>rust\<close>
  or \<^verbatim>\<open>verus\<close> or no tag, white space or none, and a newline, the orchestrator returns the
  content of that block up to the next \<^verbatim>\<open>```\<close>, with the white space at its two ends
  stripped, \<^verbatim>\<open>True\<close> and the message of the fallback. For the original text \<^verbatim>\<open>x=1\<close> and a
  response that is one such block holding \<^verbatim>\<open>x=2\<close>, the outcome is \<^verbatim>\<open>x=2\<close>, \<^verbatim>\<open>True\<close> and that
  message.
\<close>

theorem fallback_returns_first_code_block:
  assumes "parse_search_replace_response response = []"
    and "response = pre @ ''```'' @ tag @ ws @ NL @ body @ ''```'' @ rest"
    and "\<not> sublist ''```'' pre"
    and "tag \<in> {[], ''rust'', ''verus''}"
    and "\<forall>c\<in>set ws. is_space c"
    and "str_find ''```'' (body @ ''```'') = Some (length body)"
  shows "apply_search_replace_format original response =
           (strip body, True, ''Fallback to code block extraction'')"
proof -
  from findall_first_block[OF assms(3,4,5,6), of rest] obtain g gs
    where "rx_findall code_block_rx response = g # gs" "strip g = strip body"
    unfolding assms(2) by blast
  then show ?thesis
    by (simp add: apply_search_replace_format_eq apply_search_replace_format_body_def assms(1))
qed

theorem fallback_returns_first_code_block_witness:
  "parse_search_replace_response fallback_response = [] \<and>
   apply_search_replace_format ''x=1'' fallback_response =
     (''x=2'', True, ''Fallback to code block extraction'') \<and>
   parse_search_replace_response prose_response = [] \<and>
   apply_search_replace_format ''x=1'' prose_response =
     (''`a`'', True, ''Fallback to code block extraction'')"
proof -
  have h1: "parse_search_replace_response fallback_response = []" by code_simp
  have h2: "fallback_response = [] @ ''```'' @ [] @ [] @ NL @ (''x=2'' @ NL) @ ''```'' @ []"
    by (simp add: fallback_response_def)
  have h3: "\<not> sublist ''```'' []" by simp
  have h4: "[] \<in> {[], ''rust'', ''verus''}" by simp
  have h5: "\<forall>c\<in>set ([] :: string). is_space c" by simp
  have h6: "str_find ''```'' ((''x=2'' @ NL) @ ''```'') = Some (length (''x=2'' @ NL))"
    by code_simp
  have s: "strip (''x=2'' @ NL) = ''x=2''" by code_simp
  have g1: "parse_search_replace_response prose_response = []" by code_simp
  have g2: "prose_response =
              (''Use `x`:'' @ NL) @ ''```'' @ ''rust'' @ '' '' @ NL @ ('' `a` '' @ NL) @ ''```'' @
              (NL @ ''done'')"
    by (simp add: prose_response_def)
  have g3: "\<not> sublist ''```'' (''Use `x`:'' @ NL)" by code_simp
  have g4: "''rust'' \<in> {[], ''rust'', ''verus''}" by simp
  have g5: "\<forall>c\<in>set '' ''. is_space c" by (simp add: is_space_def)
  have g6: "str_find ''```'' (('' `a` '' @ NL) @ ''```'') = Some (length ('' `a` '' @ NL))"
    by code_simp
  have t: "strip ('' `a` '' @ NL) = ''`a`''" by code_simp
  from fallback_returns_first_code_block[OF h1 h2 h3 h4 h5 h6, of "''x=1''"]
    fallback_returns_first_code_block[OF g1 g2 g3 g4 g5 g6, of "''x=1''"] h1 g1 s t
  show ?thesis by simp
qed

text \<open>
  The claim as stated fails for a block with another language tag, which the fallback does
  not extract, and for a block whose content starts or ends with white space, which is not
  returned verbatim.
\<close>

theorem fallback_other_tag_counterexample:
  "parse_search_replace_response python_response = [] \<and>
   apply_search_replace_format ''x=1'' python_response =
     (''x=1'', False, ''No SEARCH/REPLACE operations or code blocks found'') \<and>
   parse_search_replace_response indented_response = [] \<and>
   rx_findall code_block_rx indented_response = [''    x=2'' @ NL] \<and>
   apply_search_replace_format ''x=1'' indented_response =
     (''x=2'', True, ''Fallback to code block extraction'')"
  by code_simp

section \<open>Matches are never empty\<close>

lemma literal_first_consumes:
  assumes "rx_match (seqs (lit l # rs)) matched [] s = Some (caps, rest)" and "l \<noteq> []"
  shows "length rest < length s"
proof -
  from assms(1) have p: "prefix l s"
    and m: "rx_match (seqs rs) matched [] (drop (length l) s) = Some (caps, rest)"
    unfolding rx_match_seqs rx_match_lit by (auto split: if_splits)
  from rx_match_matched[OF m] have "length rest \<le> length (drop (length l) s)"
    by (auto dest: suffix_length_le)
  moreover from p have "length l \<le> length s" by (rule prefix_length_le)
  moreover from assms(2) obtain c cs where "l = c # cs" by (cases l) auto
  ultimately show ?thesis by simp
qed

lemma block_match_consumes:
  "rx_match block_rx matched [] s = Some (caps, rest) \<Longrightarrow> length rest < length s"
  unfolding block_rx_def by (erule literal_first_consumes) simp

lemma code_block_match_consumes:
  "rx_match code_block_rx matched [] s = Some (caps, rest) \<Longrightarrow> length rest < length s"
  unfolding code_block_rx_def by (erule literal_first_consumes) simp

lemma fence_match_consumes:
  "rx_match fence_rx matched [] s = Some (caps, rest) \<Longrightarrow> length rest < length s"
  using fence_rest_shorter[of s] by (auto simp: fence_match split: if_splits)

end
